theory Spec2Isabelle
  imports Complex_Main "HOL-Library.Word"
begin

unbundle bit_operations_syntax

section \<open>The decimating FIR low-pass filter of \<^verbatim>\<open>src/dsp/lowpass.cxx\<close>\<close>

text \<open>
  The C++ class \<^verbatim>\<open>LowPass\<close> is embedded as functions on a record of its members.
  \<^item> \<^verbatim>\<open>unsigned int\<close> is a 32-bit word: \<open>+\<close>, \<open>-\<close> and \<open>*\<close> wrap around, \<open>div\<close> truncates.
  \<^item> Floating point is not interpreted. The values of type \<^verbatim>\<open>float\<close> are a type
    \<open>'f\<close>, those of type \<^verbatim>\<open>double\<close> a type \<open>'d\<close>, and every operation the code applies to
    them (literals, conversions, \<open>+\<close>, \<open>-\<close>, \<open>*\<close>, \<open>/\<close>, \<^verbatim>\<open>cosf\<close>, the FFTW transform) is a
    field of a record \<open>fl\<close> that the functions take as their first argument. What is
    proved holds for every such record: for IEEE single and double precision with
    their rounding, and for exact real arithmetic (\<open>exact_arith\<close> below).
  \<^item> A \<^verbatim>\<open>vector\<close> or a malloc'ed array is a list; an \<^verbatim>\<open>fftwf_complex\<close> is a pair.
  \<^item> Undefined behaviour of the C++ (an integer division by zero, an access to an
    array that was not allocated with the expected number of elements) is the result
    \<open>None\<close>.
  The header \<^verbatim>\<open>lowpass.h\<close> and the base class \<^verbatim>\<open>DspBlock\<close> are not among the sources:
  the members are taken to be \<^verbatim>\<open>unsigned int\<close>, like the setters' arguments and the
  locals they are copied to; \<^verbatim>\<open>sample_t\<close> is taken to be \<^verbatim>\<open>float\<close>, so that the pointer
  casts of lines 129--130 change nothing; and what the base class supplies (input
  sample rate, channel count, the running flag) are fields that \<^verbatim>\<open>LowPass\<close> only reads.
\<close>

type_synonym uint = "32 word"

text \<open>
  The floating-point operations of \<^verbatim>\<open>lowpass.cxx\<close>: \<open>lit\<close> is a literal of type
  \<^verbatim>\<open>double\<close> (\<^verbatim>\<open>0.54\<close>, \<^verbatim>\<open>0.46\<close>, \<^verbatim>\<open>1.0\<close>, \<^verbatim>\<open>0.0\<close>, and the \<^verbatim>\<open>int\<close> 2 where it meets a
  \<^verbatim>\<open>double\<close>), \<open>m_pi\<close> the macro \<^verbatim>\<open>M_PI\<close>, \<open>d_of_f\<close> and \<open>f_of_d\<close> the conversions between
  \<^verbatim>\<open>float\<close> and \<^verbatim>\<open>double\<close>, \<open>f_of_uint\<close> the cast \<^verbatim>\<open>(float)\<close> of an \<^verbatim>\<open>unsigned int\<close>,
  \<open>dmul\<close>, \<open>ddiv\<close>, \<open>dsub\<close> the operations on \<^verbatim>\<open>double\<close>, \<open>fadd\<close>, \<open>fmul\<close>, \<open>fdiv\<close> those on
  \<^verbatim>\<open>float\<close>. \<open>fftwf_out X k\<close> is element \<open>k\<close> of the array that \<^verbatim>\<open>fftwf_execute\<close> writes
  for the input array \<open>X\<close>, on a plan made by
  \<^verbatim>\<open>fftwf_plan_dft_1d(n, in, out, FFTW_BACKWARD, FFTW_ESTIMATE)\<close>; FFTW is an external
  library.
\<close>

record ('f, 'd) float_arith =
  lit :: "real \<Rightarrow> 'd"
  m_pi :: 'd
  d_of_f :: "'f \<Rightarrow> 'd"
  f_of_d :: "'d \<Rightarrow> 'f"
  f_of_uint :: "uint \<Rightarrow> 'f"
  dmul :: "'d \<Rightarrow> 'd \<Rightarrow> 'd"
  ddiv :: "'d \<Rightarrow> 'd \<Rightarrow> 'd"
  dsub :: "'d \<Rightarrow> 'd \<Rightarrow> 'd"
  cosf :: "'f \<Rightarrow> 'f"
  fadd :: "'f \<Rightarrow> 'f \<Rightarrow> 'f"
  fmul :: "'f \<Rightarrow> 'f \<Rightarrow> 'f"
  fdiv :: "'f \<Rightarrow> 'f \<Rightarrow> 'f"
  fftwf_out :: "('f \<times> 'f) list \<Rightarrow> nat \<Rightarrow> 'f \<times> 'f"

text \<open>
  The \<^verbatim>\<open>float\<close> that a \<^verbatim>\<open>double\<close> literal stored in a \<^verbatim>\<open>float\<close> becomes; \<open>f_zero\<close> is
  \<^verbatim>\<open>0.0\<close> so stored, which is also the value a resized \<^verbatim>\<open>vector<float>\<close> is padded
  with.
\<close>

definition f_lit :: "('f, 'd) float_arith \<Rightarrow> real \<Rightarrow> 'f" where
  "f_lit fl x = f_of_d fl (lit fl x)"

definition f_zero :: "('f, 'd) float_arith \<Rightarrow> 'f" where
  "f_zero fl = f_lit fl 0"

text \<open>The members of the base class that \<^verbatim>\<open>lowpass.cxx\<close> reads or writes.\<close>

record dspblock =
  inputSampleRate :: uint
  inputChannels :: uint
  isRunning :: bool
  outputSampleRate :: uint
  outputChannels :: uint

text \<open>
  The members of \<^verbatim>\<open>LowPass\<close>, without their leading underscore. \<open>spec\<close> and
  \<open>impulse\<close> are the two FFTW arrays (\<open>[]\<close> for the \<^verbatim>\<open>NULL\<close> pointer); the FFTW plan
  \<^verbatim>\<open>p\<close> is determined by them and \<open>firLength\<close> and has no field of its own.
\<close>

record 'f lowpass = dspblock +
  firLength :: uint
  spec :: "('f \<times> 'f) list"
  impulse :: "('f \<times> 'f) list"
  window :: "'f list"
  coeff :: "'f list"
  fir :: "'f list list"
  passband :: uint
  headpos :: uint
  decimationCount :: uint
  decimation :: uint
  reqOutputRate :: uint

text \<open>The two messages \<^verbatim>\<open>init\<close> logs with \<^verbatim>\<open>LOG_ERROR\<close> before it returns \<^verbatim>\<open>false\<close>.\<close>

datatype log_error = MustSpecify | NotIntegerMultiple

text \<open>
  What \<^verbatim>\<open>init\<close> returns: \<open>Started s\<close> is \<^verbatim>\<open>return true\<close> with the object left as \<open>s\<close>,
  \<open>Failed e s\<close> is \<^verbatim>\<open>LOG_ERROR(e); return false\<close>.
\<close>

datatype 'f init_result = Started "'f lowpass" | Failed log_error "'f lowpass"

definition FIR_LENGTH :: uint where
  "FIR_LENGTH = 64"

text \<open>
  The constructor (lines 21--30). The macro \<^verbatim>\<open>DEFAULT_SAMPLE_RATE\<close> is defined outside
  the sources and is a parameter here, as is the state of the base class.
\<close>

definition LowPass :: "uint \<Rightarrow> dspblock \<Rightarrow> 'f lowpass" where
  "LowPass DEFAULT_SAMPLE_RATE base =
     \<lparr>inputSampleRate = inputSampleRate base, inputChannels = inputChannels base,
      isRunning = isRunning base, outputSampleRate = outputSampleRate base,
      outputChannels = outputChannels base,
      firLength = FIR_LENGTH, spec = [], impulse = [], window = [], coeff = [], fir = [],
      passband = 0, headpos = 0, decimationCount = 0, decimation = 0,
      reqOutputRate = DEFAULT_SAMPLE_RATE\<rparr>"

subsection \<open>Library calls\<close>

text \<open>\<^verbatim>\<open>vector::resize(n)\<close>: keeps the first \<open>n\<close> elements and pads with \<open>v\<close>.\<close>

definition vector_resize :: "'a list \<Rightarrow> nat \<Rightarrow> 'a \<Rightarrow> 'a list" where
  "vector_resize xs n v = take n xs @ replicate (n - length xs) v"

subsection \<open>The filter designer\<close>

text \<open>
  One pass of the loop of lines 175--180, for the counter \<open>n\<close>. Each of the two
  statements assigns right to left: first the mirrored bin, then bin \<open>n\<close>. The values
  stored are the literals \<^verbatim>\<open>1.0\<close> and \<^verbatim>\<open>0.0\<close>.
\<close>

definition set_re :: "('f \<times> 'f) list \<Rightarrow> nat \<Rightarrow> 'f \<Rightarrow> ('f \<times> 'f) list" where
  "set_re xs i v = xs[i := (v, snd (xs ! i))]"

definition set_im :: "('f \<times> 'f) list \<Rightarrow> nat \<Rightarrow> 'f \<Rightarrow> ('f \<times> 'f) list" where
  "set_im xs i v = xs[i := (fst (xs ! i), v)]"

definition spec_step ::
  "('f, 'd) float_arith \<Rightarrow> uint \<Rightarrow> uint \<Rightarrow> nat \<Rightarrow> ('f \<times> 'f) list \<Rightarrow> ('f \<times> 'f) list" where
  "spec_step fl N maxbin n sp =
     (let mask = N - 1;
          m = unat ((N - of_nat n) AND mask);
          v = f_lit fl (if (of_nat n :: uint) < maxbin then 1 else 0);
          sp = set_re sp m v;
          sp = set_re sp n v;
          sp = set_im sp m (f_lit fl 0);
          sp = set_im sp n (f_lit fl 0)
      in sp)"

text \<open>One pass of the loop of lines 185--191: a product of two \<^verbatim>\<open>float\<close>s.\<close>

definition coeff_step ::
  "('f, 'd) float_arith \<Rightarrow> uint \<Rightarrow> ('f \<times> 'f) list \<Rightarrow> 'f list \<Rightarrow> nat \<Rightarrow> 'f list \<Rightarrow> 'f list" where
  "coeff_step fl N imp win n cf =
     (let bin = unat ((of_nat n + N div 2) AND (N - 1))
      in cf[n := fmul fl (fst (imp ! bin)) (win ! n)])"

text \<open>
  \<^verbatim>\<open>LowPass::recalculate\<close> (lines 166--196). The division by \<^verbatim>\<open>inputSampleRate()\<close>
  comes first. The arrays it works on were allocated by \<open>init\<close> with \<open>firLength\<close>
  elements; where they were not, the C++ reads or writes unallocated memory.
  \<^verbatim>\<open>fftwf_execute\<close> fills the \<open>firLength\<close> elements of \<open>impulse\<close> from \<open>spec\<close>. The loop
  that dumps the coefficients with \<^verbatim>\<open>LOG_DEBUG\<close> changes nothing.
\<close>

definition recalculate :: "('f, 'd) float_arith \<Rightarrow> 'f lowpass \<Rightarrow> 'f lowpass option" where
  "recalculate fl s =
     (if inputSampleRate s = 0 then None
      else if firLength s = 0 \<or> length (spec s) \<noteq> unat (firLength s)
              \<or> length (impulse s) \<noteq> unat (firLength s)
              \<or> length (window s) < unat (firLength s) then None
      else
        let N = firLength s;
            maxbin = N * passband s div inputSampleRate s div 2;
            sp = fold (spec_step fl N maxbin) [0..<unat (N div 2 + 1)] (spec s);
            imp = map (fftwf_out fl sp) [0..<unat N];
            cf = fold (coeff_step fl N imp (window s)) [0..<unat N]
                   (vector_resize (coeff s) (unat N) (f_zero fl))
        in Some (s\<lparr>spec := sp, impulse := imp, coeff := cf\<rparr>))"

subsection \<open>The setters\<close>

text \<open>Lines 37--43, 45--52 and 54--61.\<close>

definition setPassband :: "('f, 'd) float_arith \<Rightarrow> uint \<Rightarrow> 'f lowpass \<Rightarrow> 'f lowpass option" where
  "setPassband fl hz s =
     (let s = s\<lparr>passband := hz\<rparr>
      in if isRunning s then recalculate fl s else Some s)"

definition setDecimation :: "uint \<Rightarrow> 'f lowpass \<Rightarrow> 'f lowpass" where
  "setDecimation n s =
     (if isRunning s then s else s\<lparr>decimation := n, reqOutputRate := 0\<rparr>)"

definition setOutputSampleRate :: "uint \<Rightarrow> 'f lowpass \<Rightarrow> 'f lowpass" where
  "setOutputSampleRate hz s =
     (if isRunning s then s else s\<lparr>reqOutputRate := hz, decimation := 0\<rparr>)"

subsection \<open>Start\<close>

text \<open>
  The value line 97 stores in \<open>window[n]\<close>: \<^verbatim>\<open>2 * M_PI * (float)n / (float)(_firLength - 1)\<close>
  is computed in \<^verbatim>\<open>double\<close> and converted for \<^verbatim>\<open>cosf\<close>, whose result is converted back;
  the difference is a \<^verbatim>\<open>double\<close> and is converted when it is stored.
\<close>

definition hamming ::
  "('f, 'd) float_arith \<Rightarrow> 'f \<Rightarrow> 'f \<Rightarrow> 'f" where
  "hamming fl n m =
     f_of_d fl (dsub fl (lit fl 0.54)
       (dmul fl (lit fl 0.46)
          (d_of_f fl (cosf fl (f_of_d fl
             (ddiv fl (dmul fl (dmul fl (lit fl 2) (m_pi fl)) (d_of_f fl n))
                (d_of_f fl m)))))))"

text \<open>One pass of the window loop of lines 94--99; line 98 divides two \<^verbatim>\<open>float\<close>s.\<close>

definition window_step :: "('f, 'd) float_arith \<Rightarrow> uint \<Rightarrow> nat \<Rightarrow> 'f list \<Rightarrow> 'f list" where
  "window_step fl N n w =
     (let w = w[n := hamming fl (f_of_uint fl (of_nat n)) (f_of_uint fl (N - 1))]
      in w[n := fdiv fl (w ! n) (f_of_uint fl N)])"

text \<open>Lines 93--99: the window is resized and then filled by the loop.\<close>

definition init_window :: "('f, 'd) float_arith \<Rightarrow> uint \<Rightarrow> 'f list \<Rightarrow> 'f list" where
  "init_window fl N w =
     fold (window_step fl N) [0..<unat N] (vector_resize w (unat N) (f_zero fl))"

text \<open>
  Lines 83--105: the counter, the FFTW arrays (\<^verbatim>\<open>fftwf_malloc\<close> leaves their content
  indeterminate; the model fills them with 0), the window, the sample history.
\<close>

definition init_arrays :: "('f, 'd) float_arith \<Rightarrow> 'f lowpass \<Rightarrow> 'f lowpass" where
  "init_arrays fl s =
     (let N = unat (firLength s)
      in s\<lparr>decimationCount := 0,
           spec := replicate N (f_zero fl, f_zero fl),
           impulse := replicate N (f_zero fl, f_zero fl),
           window := init_window fl (firLength s) (window s),
           fir := map (\<lambda>row. vector_resize row N (f_zero fl))
                    (vector_resize (fir s) (unat (inputChannels s)) []),
           headpos := 0\<rparr>)"

text \<open>Lines 76--110, after the decimation and the output rate have been derived.\<close>

definition init_checked :: "('f, 'd) float_arith \<Rightarrow> 'f lowpass \<Rightarrow> 'f init_result option" where
  "init_checked fl s =
     (let s = s\<lparr>outputChannels := inputChannels s\<rparr>
      in if outputSampleRate s * decimation s \<noteq> inputSampleRate s
         then Some (Failed NotIntegerMultiple s)
         else map_option Started (recalculate fl (init_arrays fl s)))"

text \<open>\<^verbatim>\<open>LowPass::init\<close> (lines 63--111), the start operation.\<close>

definition init :: "('f, 'd) float_arith \<Rightarrow> 'f lowpass \<Rightarrow> 'f init_result option" where
  "init fl s =
     (if 0 < reqOutputRate s then
        init_checked fl (s\<lparr>outputSampleRate := reqOutputRate s,
                           decimation := inputSampleRate s div reqOutputRate s\<rparr>)
      else if 0 < decimation s then
        init_checked fl (s\<lparr>outputSampleRate := inputSampleRate s div decimation s\<rparr>)
      else Some (Failed MustSpecify s))"

subsection \<open>The streaming convolver\<close>

text \<open>Lines 140--141: the samples of one input frame go to \<open>fir[c][headpos]\<close>.\<close>

definition store_frame :: "'f lowpass \<Rightarrow> 'f list \<Rightarrow> 'f lowpass" where
  "store_frame s frame =
     s\<lparr>fir := fold (\<lambda>c f. f[c := (f ! c)[unat (headpos s) := frame ! c]])
                [0..<unat (inputChannels s)] (fir s)\<rparr>"

text \<open>
  Lines 144--155: the output frame is written at offset \<open>opos\<close> of the output buffer
  (the pointer \<^verbatim>\<open>out\<close>): set to \<^verbatim>\<open>0.0\<close>, then accumulated tap by tap with one \<^verbatim>\<open>float\<close>
  product and one \<^verbatim>\<open>float\<close> sum per tap and channel, while \<open>idx\<close> walks the ring
  backwards.
\<close>

definition tap_step ::
  "('f, 'd) float_arith \<Rightarrow> 'f lowpass \<Rightarrow> nat \<Rightarrow> nat \<Rightarrow> 'f list \<times> uint \<Rightarrow> 'f list \<times> uint" where
  "tap_step fl s opos tap = (\<lambda>(out, idx).
     (fold (\<lambda>c out. out[opos + c :=
               fadd fl (out ! (opos + c)) (fmul fl (coeff s ! tap) (fir s ! c ! unat idx))])
        [0..<unat (inputChannels s)] out,
      (idx - 1) AND (firLength s - 1)))"

definition generate_output ::
  "('f, 'd) float_arith \<Rightarrow> 'f lowpass \<Rightarrow> 'f list \<Rightarrow> nat \<Rightarrow> 'f list" where
  "generate_output fl s out opos =
     (let out = fold (\<lambda>c out. out[opos + c := f_zero fl]) [0..<unat (inputChannels s)] out
      in fst (fold (tap_step fl s opos) [0..<unat (firLength s)] (out, headpos s)))"

text \<open>
  The body of the \<^verbatim>\<open>while\<close> loop (lines 136--160) for one input frame: the object, the
  output buffer and the offset of \<^verbatim>\<open>out\<close> in it, before and after. \<open>None\<close>: the history
  is not the array \<open>init\<close> allocated, \<open>headpos\<close> is outside it, the coefficients are
  missing, or the output buffer has no room for the frame.
\<close>

definition process_frame ::
  "('f, 'd) float_arith \<Rightarrow> 'f lowpass \<Rightarrow> 'f list \<Rightarrow> 'f list \<Rightarrow> nat
     \<Rightarrow> ('f lowpass \<times> 'f list \<times> nat) option" where
  "process_frame fl s frame out opos =
     (if length (fir s) < unat (inputChannels s)
         \<or> list_ex (\<lambda>c. length (fir s ! c) \<noteq> unat (firLength s)) [0..<unat (inputChannels s)]
         \<or> \<not> headpos s < firLength s then None
      else
        let s = store_frame s frame;
            s = s\<lparr>decimationCount := decimationCount s + 1\<rparr>;
            next_head = (headpos s + 1) AND (firLength s - 1)
        in if decimationCount s = decimation s then
             if length (coeff s) < unat (firLength s)
                \<or> length out < opos + unat (inputChannels s) then None
             else Some (s\<lparr>decimationCount := 0, headpos := next_head\<rparr>,
                        generate_output fl s out opos,
                        opos + unat (inputChannels s))
           else Some (s\<lparr>headpos := next_head\<rparr>, out, opos))"

text \<open>
  \<^verbatim>\<open>while (inframes--)\<close>: the first argument is the number of frames still to do, the
  list \<open>inp\<close> is what lies from the pointer \<^verbatim>\<open>in\<close> on.
\<close>

fun process_loop ::
  "('f, 'd) float_arith \<Rightarrow> nat \<Rightarrow> 'f lowpass \<Rightarrow> 'f list \<Rightarrow> 'f list \<Rightarrow> nat
     \<Rightarrow> ('f lowpass \<times> 'f list \<times> nat) option" where
  "process_loop fl 0 s inp out opos = Some (s, out, opos)"
| "process_loop fl (Suc n) s inp out opos =
     (case process_frame fl s (take (unat (inputChannels s)) inp) out opos of
        None \<Rightarrow> None
      | Some (s', out', opos') \<Rightarrow>
          process_loop fl n s' (drop (unat (inputChannels s)) inp) out' opos')"

text \<open>
  \<^verbatim>\<open>LowPass::process\<close> (lines 127--164). The result is the returned \<^verbatim>\<open>bool\<close>, the
  object, the output buffer, and how far \<^verbatim>\<open>out\<close> has advanced in it (the number of
  samples written; the C++ does not report it and leaves the size of the buffer as it
  is). \<^verbatim>\<open>insize\<close> is the buffer's size converted to \<^verbatim>\<open>unsigned int\<close>.
\<close>

definition process ::
  "('f, 'd) float_arith \<Rightarrow> 'f lowpass \<Rightarrow> 'f list \<Rightarrow> 'f list
     \<Rightarrow> (bool \<times> 'f lowpass \<times> 'f list \<times> nat) option" where
  "process fl s inBuffer outBuffer =
     (let channels = inputChannels s;
          insize = (of_nat (length inBuffer) :: uint)
      in if channels = 0 then None
         else
           let inframes = insize div channels
           in map_option (Pair True)
                (process_loop fl (unat inframes) s inBuffer outBuffer 0))"

subsection \<open>Derived quantities and example configurations\<close>

text \<open>
  The output rate and the decimation that \<open>init\<close> derives in lines 67--72, as functions
  of the object it is called on (meaningful when one of the two requests is set).
\<close>

definition derived_rate :: "'f lowpass \<Rightarrow> uint" where
  "derived_rate s =
     (if 0 < reqOutputRate s then reqOutputRate s else inputSampleRate s div decimation s)"

definition derived_decimation :: "'f lowpass \<Rightarrow> uint" where
  "derived_decimation s =
     (if 0 < reqOutputRate s then inputSampleRate s div reqOutputRate s else decimation s)"

text \<open>A host that delivers two channels at 48 kHz and has not started the block.\<close>

definition host_48k :: dspblock where
  "host_48k = \<lparr>inputSampleRate = 48000, inputChannels = 2, isRunning = False,
               outputSampleRate = 0, outputChannels = 0\<rparr>"

subsection \<open>The designer and the convolution as the specification words them\<close>

text \<open>
  The reference the designed coefficients are compared with, following section 4.2 of
  the specification and not the code. The cutoff bin is
  \<open>floor(tapCount * passbandHz / inputSampleRate / 2)\<close>, over the reals.
\<close>

definition cutoff_bin :: "nat \<Rightarrow> nat \<Rightarrow> nat \<Rightarrow> nat" where
  "cutoff_bin tapCount passbandHz inputRate =
     nat \<lfloor>real tapCount * real passbandHz / real inputRate / 2\<rfloor>"

text \<open>
  The design spectrum: bin \<open>n\<close> in \<open>[0, tapCount/2]\<close> is 1.0 below the cutoff bin and 0.0
  from it on, with imaginary part 0.0, and bin \<open>(tapCount - n) mod tapCount\<close> mirrors
  it; so a bin \<open>j\<close> above \<open>tapCount/2\<close> carries the value of bin \<open>tapCount - j\<close>.
\<close>

definition DesignSpectrum :: "('f, 'd) float_arith \<Rightarrow> nat \<Rightarrow> nat \<Rightarrow> ('f \<times> 'f) list" where
  "DesignSpectrum fl tapCount maxbin =
     map (\<lambda>j. let n = (if j \<le> tapCount div 2 then j else tapCount - j)
              in (f_lit fl (if n < maxbin then 1 else 0), f_lit fl 0)) [0..<tapCount]"

text \<open>
  The window \<open>(0.54 - 0.46 cos(2\<pi>n/(tapCount-1))) / tapCount\<close>. The specification gives the
  formula and not the precision of its operations: they are the ones of \<open>fl\<close>, at the
  precisions of lines 97--98.
\<close>

definition WindowCoefficients :: "('f, 'd) float_arith \<Rightarrow> nat \<Rightarrow> nat \<Rightarrow> 'f" where
  "WindowCoefficients fl tapCount n =
     fdiv fl (hamming fl (f_of_uint fl (of_nat n)) (f_of_uint fl (of_nat (tapCount - 1))))
       (f_of_uint fl (of_nat tapCount))"

text \<open>
  The coefficients for a cutoff bin: the real part of the inverse transform of the
  design spectrum, read at bin \<open>(n + tapCount/2) mod tapCount\<close>, times the window.
\<close>

definition designed_taps :: "('f, 'd) float_arith \<Rightarrow> nat \<Rightarrow> nat \<Rightarrow> 'f list" where
  "designed_taps fl tapCount maxbin =
     map (\<lambda>n. fmul fl
                 (fst (fftwf_out fl (DesignSpectrum fl tapCount maxbin)
                         ((n + tapCount div 2) mod tapCount)))
                 (WindowCoefficients fl tapCount n)) [0..<tapCount]"

definition TapCoefficients :: "('f, 'd) float_arith \<Rightarrow> nat \<Rightarrow> nat \<Rightarrow> nat \<Rightarrow> 'f list" where
  "TapCoefficients fl tapCount passbandHz inputRate =
     designed_taps fl tapCount (cutoff_bin tapCount passbandHz inputRate)"

text \<open>
  The output sample of section 4.3: the sum over \<open>tap\<close> in \<open>[0, tapCount)\<close> of
  \<open>TapCoefficients[tap] * history[(headpos - tap) mod tapCount]\<close>, the terms added in
  this order to \<^verbatim>\<open>0.0\<close>.
\<close>

definition tap_sum :: "('f, 'd) float_arith \<Rightarrow> 'f list \<Rightarrow> 'f list \<Rightarrow> nat \<Rightarrow> nat \<Rightarrow> 'f" where
  "tap_sum fl taps history head tapCount =
     foldl (\<lambda>acc tap. fadd fl acc
                (fmul fl (taps ! tap)
                   (history ! nat ((int head - int tap) mod int tapCount))))
       (f_zero fl) [0..<tapCount]"

subsection \<open>Exact arithmetic\<close>

text \<open>
  The arithmetic without rounding: both types are the reals, the conversions change
  nothing, and the transform is the unnormalised backward sum
  \<open>Y\<^sub>k = \<Sum>\<^sub>j X\<^sub>j e\<^sup>2\<^sup>\<pi>\<^sup>i\<^sup>j\<^sup>k\<^sup>/\<^sup>n\<close> by which the FFTW manual defines what the library
  approximates. In it, the reference above is the specification's formula over the
  reals.
\<close>

definition inverse_dft :: "(real \<times> real) list \<Rightarrow> nat \<Rightarrow> real \<times> real" where
  "inverse_dft X k =
     (let z = (\<Sum>j<length X. Complex (fst (X ! j)) (snd (X ! j))
                   * cis (2 * pi * real j * real k / real (length X)))
      in (Re z, Im z))"

definition exact_arith :: "(real, real) float_arith" where
  "exact_arith =
     \<lparr>lit = (\<lambda>x. x), m_pi = pi, d_of_f = (\<lambda>x. x), f_of_d = (\<lambda>x. x),
      f_of_uint = (\<lambda>n. real (unat n)),
      dmul = (*), ddiv = (/), dsub = (-), cosf = cos,
      fadd = (+), fmul = (*), fdiv = (/), fftwf_out = inverse_dft\<rparr>"

subsection \<open>States of a started block\<close>

text \<open>
  What \<open>init\<close> leaves for the designer, and \<open>recalculate\<close> keeps: a tap count of
  \<open>2\<^sup>k\<close> (the code has \<open>k = 6\<close>), a non-zero input rate, the two FFTW arrays of that
  length, and the window of lines 93--99.
\<close>

definition designer_ready :: "('f, 'd) float_arith \<Rightarrow> nat \<Rightarrow> 'f lowpass \<Rightarrow> bool" where
  "designer_ready fl k s \<longleftrightarrow>
     0 < k \<and> k < 32 \<and> firLength s = 2 ^ k \<and> inputSampleRate s \<noteq> 0
     \<and> length (spec s) = 2 ^ k \<and> length (impulse s) = 2 ^ k
     \<and> window s = init_window fl (firLength s) []"

text \<open>
  What \<open>init\<close> leaves for the convolver, and \<open>process\<close> keeps: at least one channel,
  one history row of \<open>2\<^sup>k\<close> samples per channel, as many coefficients, \<open>headpos\<close>
  inside the ring, and the decimation counter below the decimation.
\<close>

definition convolver_ready :: "nat \<Rightarrow> 'f lowpass \<Rightarrow> bool" where
  "convolver_ready k s \<longleftrightarrow>
     0 < k \<and> k < 32 \<and> firLength s = 2 ^ k \<and> inputChannels s \<noteq> 0
     \<and> length (fir s) = unat (inputChannels s)
     \<and> (\<forall>row \<in> set (fir s). length row = 2 ^ k)
     \<and> length (coeff s) = 2 ^ k
     \<and> headpos s < firLength s
     \<and> decimationCount s < decimation s"

subsection \<open>A host that feeds blocks\<close>

text \<open>
  The host's side of a stream, for the statements about several calls: \<open>process\<close> is
  called once per block, each with an output buffer of its own, and the frames written
  (samples written by the channel count) are added up.
\<close>

fun feed ::
  "('f, 'd) float_arith \<Rightarrow> 'f lowpass \<Rightarrow> ('f list \<times> 'f list) list
     \<Rightarrow> ('f lowpass \<times> nat) option" where
  "feed fl s [] = Some (s, 0)"
| "feed fl s ((inBuffer, outBuffer) # calls) =
     (case process fl s inBuffer outBuffer of
        None \<Rightarrow> None
      | Some (ok, s', out', written) \<Rightarrow>
          (case feed fl s' calls of
             None \<Rightarrow> None
           | Some (s'', frames) \<Rightarrow> Some (s'', written div unat (inputChannels s) + frames)))"

text \<open>
  The calls a host may make without running over a buffer, for a channel count \<open>ch\<close>, a
  decimation \<open>d\<close> and a decimation counter \<open>c\<close> before the first call: every block's
  size fits \<^verbatim>\<open>unsigned int\<close>, and every output buffer holds the frames its call
  produces.
\<close>

fun rooms :: "nat \<Rightarrow> nat \<Rightarrow> nat \<Rightarrow> ('f list \<times> 'f list) list \<Rightarrow> bool" where
  "rooms ch d c [] = True"
| "rooms ch d c ((inBuffer, outBuffer) # calls) =
     (length inBuffer < 2 ^ 32
      \<and> ch * ((c + length inBuffer div ch) div d) \<le> length outBuffer
      \<and> rooms ch d ((c + length inBuffer div ch) mod d) calls)"

text \<open>The input frames of all blocks together.\<close>

definition frames_in :: "nat \<Rightarrow> ('f list \<times> 'f list) list \<Rightarrow> nat" where
  "frames_in ch calls = sum_list (map (\<lambda>(inBuffer, outBuffer). length inBuffer div ch) calls)"

text \<open>
  A block constructed for that host, with 24000 for \<^verbatim>\<open>DEFAULT_SAMPLE_RATE\<close>, and given
  a passband of 6 kHz.
\<close>

definition config_48k :: "'f lowpass" where
  "config_48k = (LowPass 24000 host_48k)\<lparr>passband := 6000\<rparr>"

text \<open>
  The object as \<open>init\<close> hands that block to \<open>recalculate\<close>: the output rate is the
  requested 24 kHz, hence the decimation 2.
\<close>

definition example_48k :: "('f, 'd) float_arith \<Rightarrow> 'f lowpass" where
  "example_48k fl = init_arrays fl (config_48k
      \<lparr>outputSampleRate := 24000, decimation := 2, outputChannels := 2\<rparr>)"

section \<open>Start: configuration errors and derived rates\<close>

lemma vector_resize_length: "length (vector_resize xs n v) = n"
  by (simp add: vector_resize_def)

lemma FIR_LENGTH_neq_0: "FIR_LENGTH \<noteq> 0"
  by (simp add: FIR_LENGTH_def)

lemma recalculate_SomeD:
  assumes "recalculate fl s = Some s'"
  shows "\<exists>sp imp cf. s' = s\<lparr>spec := sp, impulse := imp, coeff := cf\<rparr>"
  using assms by (auto simp: recalculate_def Let_def split: if_splits)

lemma fold_window_length: "length (fold (window_step fl N) ns w) = length w"
  by (induction ns arbitrary: w) (simp_all add: window_step_def Let_def)

lemma init_window_length: "length (init_window fl N w) = unat N"
  by (simp add: init_window_def fold_window_length vector_resize_length)

lemma recalculate_init_arrays:
  "recalculate fl (init_arrays fl s) = None \<longleftrightarrow> inputSampleRate s = 0 \<or> firLength s = 0"
  by (simp add: recalculate_def init_arrays_def Let_def init_window_length)

text \<open>The check of line 79 multiplies in 32 bits; the product cannot wrap here.\<close>

lemma word_mul_div_exact:
  fixes a b :: uint
  assumes "a * (b div a) = b"
  shows "unat a * unat (b div a) = unat b"
  by (metis (no_types, lifting) assms div_times_less_eq_dividend le_unat_uoi
    mult.commute unat_div_distrib word_arith_nat_mult)

lemma word_mul_div_dvd:
  fixes a b :: uint
  shows "a * (b div a) = b \<longleftrightarrow> unat a dvd unat b"
proof
  assume "a * (b div a) = b"
  then have "unat a * unat (b div a) = unat b" by (rule word_mul_div_exact)
  then show "unat a dvd unat b" by (metis dvd_triv_left)
next
  assume "unat a dvd unat b"
  then have "unat b = unat a * (unat b div unat a)" by simp
  then have "unat b = unat a * unat (b div a)" by (simp add: unat_div)
  then have "(of_nat (unat b) :: uint) = of_nat (unat a * unat (b div a))" by simp
  then show "a * (b div a) = b" by simp
qed

text \<open>\<open>init\<close>, branch by branch.\<close>

lemma init_cases:
  "init fl s =
     (if reqOutputRate s = 0 \<and> decimation s = 0 then Some (Failed MustSpecify s)
      else if derived_rate s * derived_decimation s \<noteq> inputSampleRate s
        then Some (Failed NotIntegerMultiple
          (s\<lparr>outputSampleRate := derived_rate s, decimation := derived_decimation s,
             outputChannels := inputChannels s\<rparr>))
      else map_option Started (recalculate fl (init_arrays fl
          (s\<lparr>outputSampleRate := derived_rate s, decimation := derived_decimation s,
             outputChannels := inputChannels s\<rparr>))))"
  by (simp add: init_def init_checked_def derived_rate_def derived_decimation_def Let_def
        word_greater_zero_iff)

lemma derived_product_dvd:
  assumes "reqOutputRate s \<noteq> 0 \<or> decimation s \<noteq> 0"
  shows "derived_rate s * derived_decimation s = inputSampleRate s \<longleftrightarrow>
         unat (if 0 < reqOutputRate s then reqOutputRate s else decimation s)
           dvd unat (inputSampleRate s)"
  using assms
  by (auto simp: derived_rate_def derived_decimation_def word_mul_div_dvd mult.commute
        word_greater_zero_iff)

lemma derived_product_unat:
  "derived_rate s * derived_decimation s = inputSampleRate s \<longleftrightarrow>
   unat (derived_rate s) * unat (derived_decimation s) = unat (inputSampleRate s)"
proof -
  have *: "a * (b div a) = b \<longleftrightarrow> unat a * unat (b div a) = unat b" for a b :: uint
  proof
    assume "a * (b div a) = b" then show "unat a * unat (b div a) = unat b"
      by (rule word_mul_div_exact)
  next
    assume "unat a * unat (b div a) = unat b"
    then have "unat a dvd unat b" by (metis dvd_triv_left)
    then show "a * (b div a) = b" by (simp add: word_mul_div_dvd)
  qed
  show ?thesis
    using *[of "reqOutputRate s" "inputSampleRate s"] *[of "decimation s" "inputSampleRate s"]
    by (simp add: derived_rate_def derived_decimation_def mult.commute)
qed

lemma init_Failed_iff:
  assumes "inputSampleRate s \<noteq> 0" and "firLength s \<noteq> 0"
  shows "(\<exists>e s'. init fl s = Some (Failed e s')) \<longleftrightarrow>
           (reqOutputRate s = 0 \<and> decimation s = 0)
         \<or> derived_rate s * derived_decimation s \<noteq> inputSampleRate s"
proof -
  let ?t = "s\<lparr>outputSampleRate := derived_rate s, decimation := derived_decimation s,
             outputChannels := inputChannels s\<rparr>"
  have "recalculate fl (init_arrays fl ?t) \<noteq> None"
    using assms by (simp add: recalculate_init_arrays)
  then obtain s' where "recalculate fl (init_arrays fl ?t) = Some s'" by blast
  then show ?thesis by (simp add: init_cases)
qed

lemma init_Started_iff:
  assumes "inputSampleRate s \<noteq> 0" and "firLength s \<noteq> 0"
  shows "(\<exists>s'. init fl s = Some (Started s')) \<longleftrightarrow>
           \<not> ((reqOutputRate s = 0 \<and> decimation s = 0)
         \<or> derived_rate s * derived_decimation s \<noteq> inputSampleRate s)"
proof -
  let ?t = "s\<lparr>outputSampleRate := derived_rate s, decimation := derived_decimation s,
             outputChannels := inputChannels s\<rparr>"
  have "recalculate fl (init_arrays fl ?t) \<noteq> None"
    using assms by (simp add: recalculate_init_arrays)
  then obtain s' where "recalculate fl (init_arrays fl ?t) = Some s'" by blast
  then show ?thesis by (simp add: init_cases)
qed

lemma init_StartedD:
  assumes "init fl s = Some (Started s')"
  shows "(reqOutputRate s \<noteq> 0 \<or> decimation s \<noteq> 0)
       \<and> derived_rate s * derived_decimation s = inputSampleRate s
       \<and> recalculate fl (init_arrays fl (s\<lparr>outputSampleRate := derived_rate s,
             decimation := derived_decimation s, outputChannels := inputChannels s\<rparr>)) = Some s'"
  using assms by (auto simp: init_cases split: if_splits)

lemma init_Started_fields:
  assumes "init fl s = Some (Started s')"
  shows "outputSampleRate s' = derived_rate s" "decimation s' = derived_decimation s"
    "inputSampleRate s' = inputSampleRate s" "outputChannels s' = inputChannels s"
    "inputChannels s' = inputChannels s" "reqOutputRate s' = reqOutputRate s"
    "headpos s' = 0" "decimationCount s' = 0" "firLength s' = firLength s"
  using init_StartedD[OF assms]
  by (auto dest!: recalculate_SomeD simp: init_arrays_def Let_def)

text \<open>
  Claim C4, as the code has it. For an object built by the constructor and a non-zero
  input sample rate, \<open>init\<close> returns \<^verbatim>\<open>false\<close> exactly when neither the decimation nor
  the output rate is set, or the derived output rate times the derived decimation is
  not the input rate, and returns \<^verbatim>\<open>true\<close> in every other case. The product is exact
  (it does not wrap), and it differs from the input rate exactly when the input rate
  is not a multiple of the value the caller supplied: the requested output rate, or
  else the requested decimation.
\<close>

theorem init_fails_iff:
  assumes "inputSampleRate s \<noteq> 0" and "firLength s = FIR_LENGTH"
  shows "((\<exists>e s'. init fl s = Some (Failed e s')) \<longleftrightarrow>
            (reqOutputRate s = 0 \<and> decimation s = 0)
          \<or> unat (derived_rate s) * unat (derived_decimation s) \<noteq> unat (inputSampleRate s))
       \<and> ((\<exists>s'. init fl s = Some (Started s')) \<longleftrightarrow>
            \<not> ((reqOutputRate s = 0 \<and> decimation s = 0)
          \<or> unat (derived_rate s) * unat (derived_decimation s) \<noteq> unat (inputSampleRate s)))
       \<and> (reqOutputRate s \<noteq> 0 \<or> decimation s \<noteq> 0 \<longrightarrow>
            (unat (derived_rate s) * unat (derived_decimation s) \<noteq> unat (inputSampleRate s) \<longleftrightarrow>
             \<not> unat (if 0 < reqOutputRate s then reqOutputRate s else decimation s)
                  dvd unat (inputSampleRate s)))"
  using assms init_Failed_iff[of s fl] init_Started_iff[of s fl] derived_product_dvd[of s]
  by (simp add: FIR_LENGTH_neq_0 derived_product_unat)

theorem init_fails_iff_witness:
  "inputSampleRate (setDecimation 2 (LowPass 24000 host_48k :: real lowpass)) \<noteq> 0
   \<and> firLength (setDecimation 2 (LowPass 24000 host_48k :: real lowpass)) = FIR_LENGTH
   \<and> (\<exists>s'. init exact_arith (setDecimation 2 (LowPass 24000 host_48k :: real lowpass)) = Some (Started s'))
   \<and> (\<exists>e s'. init exact_arith (setDecimation 5000 (LowPass 24000 host_48k :: real lowpass)) = Some (Failed e s'))"
  using init_fails_iff[of "setDecimation 2 (LowPass 24000 host_48k :: real lowpass)" exact_arith]
        init_fails_iff[of "setDecimation 5000 (LowPass 24000 host_48k :: real lowpass)" exact_arith]
  by (simp add: setDecimation_def LowPass_def host_48k_def derived_rate_def derived_decimation_def)

text \<open>
  The claim as the specification words it fails. With a decimation of 239 requested at
  48 kHz the derived output rate is 200 Hz, of which 48000 is an exact multiple, and a
  request is set; yet \<open>init\<close> logs that the input rate must be an integer multiple and
  returns \<^verbatim>\<open>false\<close>, since 200 * 239 is not 48000. With an input rate of 0 and the
  default request of 24000 Hz neither condition of the claim holds either, and \<open>init\<close>
  does not return: the redesign divides by the input rate.
\<close>

theorem init_multiple_counterexample:
  "init exact_arith (setDecimation 239 (LowPass 24000 host_48k :: real lowpass))
     = Some (Failed NotIntegerMultiple
         ((setDecimation 239 (LowPass 24000 host_48k :: real lowpass))
            \<lparr>outputSampleRate := 200, outputChannels := 2\<rparr>))
   \<and> decimation (setDecimation 239 (LowPass 24000 host_48k :: real lowpass)) = 239
   \<and> derived_rate (setDecimation 239 (LowPass 24000 host_48k :: real lowpass)) = 200
   \<and> unat (derived_rate (setDecimation 239 (LowPass 24000 host_48k :: real lowpass)))
       dvd unat (inputSampleRate (setDecimation 239 (LowPass 24000 host_48k :: real lowpass)))
   \<and> init exact_arith (LowPass 24000 (host_48k\<lparr>inputSampleRate := 0\<rparr>) :: real lowpass) = None
   \<and> reqOutputRate (LowPass 24000 (host_48k\<lparr>inputSampleRate := 0\<rparr>) :: real lowpass) = 24000
   \<and> unat (derived_rate (LowPass 24000 (host_48k\<lparr>inputSampleRate := 0\<rparr>) :: real lowpass))
       dvd unat (inputSampleRate (LowPass 24000 (host_48k\<lparr>inputSampleRate := 0\<rparr>) :: real lowpass))"
proof -
  have "init exact_arith (LowPass 24000 (host_48k\<lparr>inputSampleRate := 0\<rparr>) :: real lowpass) = None"
    by (simp add: init_cases recalculate_init_arrays LowPass_def host_48k_def
          derived_rate_def derived_decimation_def)
  then show ?thesis
    by (simp add: init_def init_checked_def setDecimation_def LowPass_def host_48k_def
          derived_rate_def)
qed

text \<open>
  Claim C5. Whenever \<open>init\<close> returns \<^verbatim>\<open>true\<close>, the output rate times the decimation is
  the input rate, as 32-bit values and as numbers; the input rate is the host's; and
  of the two, the one the caller set is kept and the other one is the quotient.
\<close>

theorem init_rates_exact:
  assumes "init fl s = Some (Started s')"
  shows "outputSampleRate s' * decimation s' = inputSampleRate s'
       \<and> unat (outputSampleRate s') * unat (decimation s') = unat (inputSampleRate s')
       \<and> inputSampleRate s' = inputSampleRate s
       \<and> (if 0 < reqOutputRate s
           then outputSampleRate s' = reqOutputRate s
              \<and> decimation s' = inputSampleRate s div reqOutputRate s
           else decimation s' = decimation s
              \<and> outputSampleRate s' = inputSampleRate s div decimation s)"
  using init_StartedD[OF assms] init_Started_fields[OF assms] derived_product_unat[of s]
  by (simp add: derived_rate_def derived_decimation_def)

theorem init_rates_exact_witness:
  "\<exists>s'. init exact_arith (setDecimation 2 (LowPass 24000 host_48k :: real lowpass)) = Some (Started s')
     \<and> unat (outputSampleRate s') * unat (decimation s') = unat (inputSampleRate s')
     \<and> outputSampleRate s' = 24000 \<and> decimation s' = 2"
proof -
  have "\<exists>s'. init exact_arith (setDecimation 2 (LowPass 24000 host_48k :: real lowpass)) = Some (Started s')"
    by (simp add: init_Started_iff setDecimation_def LowPass_def host_48k_def
          derived_rate_def derived_decimation_def FIR_LENGTH_def)
  then obtain s' where s': "init exact_arith (setDecimation 2 (LowPass 24000 host_48k :: real lowpass)) = Some (Started s')"
    by blast
  from init_rates_exact[OF s'] show ?thesis
    using s' by (simp add: setDecimation_def LowPass_def host_48k_def)
qed

text \<open>
  Claim C9. If the macro \<^verbatim>\<open>DEFAULT_SAMPLE_RATE\<close> is not 0, \<open>init\<close> on a freshly
  constructed object takes the branch of the requested output rate with that default:
  it never reports that neither value was specified, it returns \<^verbatim>\<open>false\<close> exactly when
  the input rate is not a multiple of the default, and otherwise (for a non-zero input
  rate) it returns \<^verbatim>\<open>true\<close> with the default as its output rate.
\<close>

theorem fresh_start_uses_default:
  fixes fl :: "('a, 'b) float_arith"
  assumes "DEFAULT_SAMPLE_RATE \<noteq> 0"
  shows "init fl (LowPass DEFAULT_SAMPLE_RATE base)
           = init_checked fl ((LowPass DEFAULT_SAMPLE_RATE base)
               \<lparr>outputSampleRate := DEFAULT_SAMPLE_RATE,
                decimation := inputSampleRate base div DEFAULT_SAMPLE_RATE\<rparr>)
       \<and> (\<forall>s'. init fl (LowPass DEFAULT_SAMPLE_RATE base) \<noteq> Some (Failed MustSpecify s'))
       \<and> ((\<exists>e s'. init fl (LowPass DEFAULT_SAMPLE_RATE base) = Some (Failed e s'))
            \<longleftrightarrow> \<not> unat DEFAULT_SAMPLE_RATE dvd unat (inputSampleRate base))
       \<and> (unat DEFAULT_SAMPLE_RATE dvd unat (inputSampleRate base) \<and> inputSampleRate base \<noteq> 0
            \<longrightarrow> (\<exists>s'. init fl (LowPass DEFAULT_SAMPLE_RATE base) = Some (Started s')
                    \<and> outputSampleRate s' = DEFAULT_SAMPLE_RATE
                    \<and> decimation s' = inputSampleRate base div DEFAULT_SAMPLE_RATE))"
proof -
  let ?s = "LowPass DEFAULT_SAMPLE_RATE base :: 'a lowpass"
  have req: "reqOutputRate ?s = DEFAULT_SAMPLE_RATE" "inputSampleRate ?s = inputSampleRate base"
    "firLength ?s \<noteq> 0"
    by (simp_all add: LowPass_def FIR_LENGTH_def)
  have pos: "0 < DEFAULT_SAMPLE_RATE"
    using assms by (simp add: word_greater_zero_iff)
  have dr: "derived_rate ?s = DEFAULT_SAMPLE_RATE"
    "derived_decimation ?s = inputSampleRate base div DEFAULT_SAMPLE_RATE"
    using pos by (simp_all add: derived_rate_def derived_decimation_def req)
  have prod: "derived_rate ?s * derived_decimation ?s = inputSampleRate ?s
      \<longleftrightarrow> unat DEFAULT_SAMPLE_RATE dvd unat (inputSampleRate base)"
    using derived_product_dvd[of ?s] assms pos by (simp add: req)
  have 1: "init fl ?s = init_checked fl (?s\<lparr>outputSampleRate := DEFAULT_SAMPLE_RATE,
                decimation := inputSampleRate base div DEFAULT_SAMPLE_RATE\<rparr>)"
    using pos by (simp add: init_def req)
  have 2: "\<forall>s'. init fl ?s \<noteq> Some (Failed MustSpecify s')"
    using assms by (auto simp: init_cases req split: if_splits)
  have 3: "(\<exists>e s'. init fl ?s = Some (Failed e s'))
            \<longleftrightarrow> \<not> unat DEFAULT_SAMPLE_RATE dvd unat (inputSampleRate base)"
    using assms prod by (auto simp: init_cases req split: if_splits)
  have 4: "\<exists>s'. init fl ?s = Some (Started s') \<and> outputSampleRate s' = DEFAULT_SAMPLE_RATE
                    \<and> decimation s' = inputSampleRate base div DEFAULT_SAMPLE_RATE"
    if "unat DEFAULT_SAMPLE_RATE dvd unat (inputSampleRate base)" "inputSampleRate base \<noteq> 0"
  proof -
    have "\<exists>s'. init fl ?s = Some (Started s')"
      using that assms prod req by (simp add: init_Started_iff)
    then obtain s' where s': "init fl ?s = Some (Started s')" by blast
    from init_Started_fields(1,2)[OF s'] s' dr show ?thesis by simp
  qed
  from 1 2 3 4 show ?thesis by blast
qed

theorem fresh_start_uses_default_witness:
  "(24000 :: uint) \<noteq> 0
   \<and> (\<exists>s'. init exact_arith (LowPass 24000 host_48k :: real lowpass) = Some (Started s') \<and> outputSampleRate s' = 24000
          \<and> decimation s' = 2)
   \<and> (\<exists>e s'. init exact_arith (LowPass 44100 host_48k :: real lowpass) = Some (Failed e s'))"
proof -
  have a: "(24000 :: uint) \<noteq> 0" "(44100 :: uint) \<noteq> 0" by simp_all
  have b: "unat (24000 :: uint) dvd unat (inputSampleRate host_48k)" "inputSampleRate host_48k \<noteq> 0"
    "\<not> unat (44100 :: uint) dvd unat (inputSampleRate host_48k)"
    "inputSampleRate host_48k div 24000 = 2"
    by (simp_all add: host_48k_def)
  show ?thesis
    using fresh_start_uses_default[OF a(1), where fl = exact_arith and base = host_48k,
            THEN conjunct2, THEN conjunct2]
          fresh_start_uses_default[OF a(2), where fl = exact_arith and base = host_48k,
            THEN conjunct2, THEN conjunct2] a b
    by simp
qed

section \<open>The setters\<close>

text \<open>
  Claim C7. While the block is running, \<open>setDecimation\<close> and \<open>setOutputSampleRate\<close>
  leave the whole object as it is. While it is not, each stores its argument and sets
  the other request to 0, so after both have been called the one called last is set
  and the other one is 0.
\<close>

theorem setters_frame:
  "(isRunning s \<longrightarrow> setDecimation n s = s \<and> setOutputSampleRate hz s = s)
   \<and> (\<not> isRunning s \<longrightarrow>
        setDecimation n s = s\<lparr>decimation := n, reqOutputRate := 0\<rparr>
      \<and> setOutputSampleRate hz s = s\<lparr>reqOutputRate := hz, decimation := 0\<rparr>
      \<and> decimation (setDecimation n (setOutputSampleRate hz s)) = n
      \<and> reqOutputRate (setDecimation n (setOutputSampleRate hz s)) = 0
      \<and> reqOutputRate (setOutputSampleRate hz (setDecimation n s)) = hz
      \<and> decimation (setOutputSampleRate hz (setDecimation n s)) = 0)"
  by (simp add: setDecimation_def setOutputSampleRate_def)

theorem setters_frame_witness:
  "setDecimation 4 ((LowPass 24000 host_48k :: real lowpass)\<lparr>isRunning := True\<rparr>)
      = (LowPass 24000 host_48k :: real lowpass)\<lparr>isRunning := True\<rparr>
   \<and> setOutputSampleRate 8000 ((LowPass 24000 host_48k :: real lowpass)\<lparr>isRunning := True\<rparr>)
      = (LowPass 24000 host_48k :: real lowpass)\<lparr>isRunning := True\<rparr>
   \<and> setDecimation 4 (LowPass 24000 host_48k :: real lowpass)
      = (LowPass 24000 host_48k :: real lowpass)\<lparr>decimation := 4, reqOutputRate := 0\<rparr>
   \<and> reqOutputRate (setOutputSampleRate 8000 (setDecimation 4 (LowPass 24000 host_48k :: real lowpass))) = 8000
   \<and> decimation (setOutputSampleRate 8000 (setDecimation 4 (LowPass 24000 host_48k :: real lowpass))) = 0"
proof -
  have r: "isRunning ((LowPass 24000 host_48k :: real lowpass)\<lparr>isRunning := True\<rparr>)"
    by simp
  have n: "\<not> isRunning (LowPass 24000 host_48k :: real lowpass)"
    by (simp add: LowPass_def host_48k_def)
  show ?thesis
    using setters_frame[of "(LowPass 24000 host_48k :: real lowpass)\<lparr>isRunning := True\<rparr>" 4 8000]
          setters_frame[of "(LowPass 24000 host_48k :: real lowpass)" 4 8000] r n
    by blast
qed


section \<open>The designer\<close>

subsection \<open>32-bit arithmetic on a power of two\<close>


lemma pow2_lt_word: "k < 32 \<Longrightarrow> (2::nat) ^ k < 2 ^ 32"
  by (rule power_strict_increasing) simp_all

lemma unat_of_nat_small: "n < 2 ^ 32 \<Longrightarrow> unat (of_nat n :: uint) = n"
  by (simp add: unat_of_nat)

lemma unat_pow2: "k < 32 \<Longrightarrow> unat (2 ^ k :: uint) = 2 ^ k"
proof -
  assume k: "k < 32"
  have "(2 ^ k :: uint) = of_nat (2 ^ k)" by simp
  then have "unat (2 ^ k :: uint) = unat (of_nat (2 ^ k) :: uint)" by (rule arg_cong)
  also have "\<dots> = 2 ^ k" by (rule unat_of_nat_small) (rule pow2_lt_word[OF k])
  finally show ?thesis .
qed

lemma unat_and_mask: "unat ((x :: uint) AND mask k) = unat x mod 2 ^ k"
proof -
  have "unat (x AND mask k) = unat (take_bit k x)" by (simp only: take_bit_eq_mask)
  also have "\<dots> = take_bit k (unat x)" by (rule unsigned_take_bit_eq)
  also have "\<dots> = unat x mod 2 ^ k" by (rule take_bit_eq_mod)
  finally show ?thesis .
qed

lemma unat_and_pow2m1: "unat ((x :: uint) AND (2 ^ k - 1)) = unat x mod 2 ^ k"
  by (simp only: mask_eq_exp_minus_1[symmetric] unat_and_mask)

lemma unat_pow2_half: 
  assumes "0 < k" "k < 32" shows "unat ((2 ^ k :: uint) div 2) = 2 ^ (k - 1)"
proof -
  have "unat ((2 ^ k :: uint) div 2) = unat (2 ^ k :: uint) div unat (2 :: uint)" by (rule unat_div)
  also have "\<dots> = 2 ^ k div 2" using assms by (simp add: unat_pow2)
  also have "\<dots> = 2 ^ (k - 1)" using assms by (cases k) simp_all
  finally show ?thesis .
qed

lemma unat_pow2_sub:
  assumes "k < 32" "i \<le> 2 ^ k"
  shows "unat ((2 ^ k :: uint) - of_nat i) = 2 ^ k - i"
proof -
  have "(2 ^ k :: uint) - of_nat i = of_nat (2 ^ k - i)"
    using assms(2) by (simp add: of_nat_diff)
  then have "unat ((2 ^ k :: uint) - of_nat i) = unat (of_nat (2 ^ k - i) :: uint)" by (rule arg_cong)
  also have "\<dots> = 2 ^ k - i"
    using pow2_lt_word[OF assms(1)] by (intro unat_of_nat_small) arith
  finally show ?thesis .
qed

lemma unat_mirror:
  assumes "k < 32" "i \<le> 2 ^ k"
  shows "unat (((2 ^ k :: uint) - of_nat i) AND (2 ^ k - 1)) = (2 ^ k - i) mod 2 ^ k"
  by (simp only: unat_and_pow2m1 unat_pow2_sub[OF assms])

lemma unat_recentre:
  assumes "0 < k" "k < 32" "n < 2 ^ k"
  shows "unat (((of_nat n :: uint) + 2 ^ k div 2) AND (2 ^ k - 1)) = (n + 2 ^ (k - 1)) mod 2 ^ k"
proof -
  have h: "(2::nat) ^ (k - 1) < 2 ^ 31"
    using assms by (intro power_strict_increasing) simp_all
  have n: "n < 2 ^ 31"
  proof -
    have "(2::nat) ^ k \<le> 2 ^ 31" using assms by (intro power_increasing) simp_all
    with assms(3) show ?thesis by simp
  qed
  have a: "unat (of_nat n :: uint) = n" using n by (intro unat_of_nat_small) simp
  have "unat (of_nat n :: uint) + unat ((2 ^ k :: uint) div 2) < 2 ^ LENGTH(32)"
    using h n by (simp add: a unat_pow2_half[OF assms(1,2)])
  then have "unat ((of_nat n :: uint) + 2 ^ k div 2) = n + 2 ^ (k - 1)"
    by (simp add: unat_add_lem[THEN iffD1] a unat_pow2_half[OF assms(1,2)])
  then show ?thesis by (simp only: unat_and_pow2m1)
qed

lemma word_less_of_nat: "n < 2 ^ 32 \<Longrightarrow> (of_nat n :: uint) < m \<longleftrightarrow> n < unat m"
  by (simp add: word_less_nat_alt unat_of_nat_small)

lemma unat_maxbin:
  fixes N pb r :: uint
  assumes "unat N * unat pb < 2 ^ 32" 
  shows "unat (N * pb div r div 2) = unat N * unat pb div unat r div 2"
proof -
  have "unat (N * pb) = unat N * unat pb"
    using assms by (simp add: unat_mult_lem[THEN iffD1])
  then show ?thesis by (simp add: unat_div)
qed

lemma floor_maxbin:
  "nat \<lfloor>real a * real b / real c / 2\<rfloor> = a * b div c div 2"
  by (metis (mono_tags, lifting) div_mult2_eq divide_divide_eq_left
    floor_divide_of_nat_eq nat_int of_nat_mult of_nat_numeral)

lemma unat_head_step:
  assumes "k < 32" "unat (x :: uint) < 2 ^ k"
  shows "unat ((x + 1) AND (2 ^ k - 1)) = (unat x + 1) mod 2 ^ k"
proof -
  have "unat x + unat (1 :: uint) < 2 ^ LENGTH(32)"
    using assms pow2_lt_word[OF assms(1)] by simp
  then have "unat (x + 1) = unat x + 1"
    by (simp add: unat_add_lem[THEN iffD1])
  then show ?thesis by (simp only: unat_and_pow2m1)
qed



lemma uint_and_pow2m1: "uint ((y :: uint) AND (2 ^ k - 1)) = uint y mod 2 ^ k"
proof -
  have "uint (y AND (2 ^ k - 1)) = uint (take_bit k y)"
    by (simp only: take_bit_eq_mask mask_eq_exp_minus_1)
  also have "\<dots> = take_bit k (uint y)" by (rule unsigned_take_bit_eq)
  also have "\<dots> = uint y mod 2 ^ k" by (rule take_bit_eq_mod)
  finally show ?thesis .
qed

lemma uint_idx_step:
  assumes "k \<le> 32"
  shows "uint (((x :: uint) - 1) AND (2 ^ k - 1)) = (uint x - 1) mod 2 ^ k"
proof -
  have d: "(2::int) ^ k dvd 2 ^ 32" using assms by (rule le_imp_power_dvd)
  have "uint (x - 1) = (uint x - 1) mod 2 ^ 32"
    by (simp add: uint_word_ariths)
  then have "uint ((x - 1) AND (2 ^ k - 1)) = (uint x - 1) mod 2 ^ 32 mod 2 ^ k"
    by (simp only: uint_and_pow2m1)
  also have "\<dots> = (uint x - 1) mod 2 ^ k" using d by (rule mod_mod_cancel)
  finally show ?thesis .
qed


subsection \<open>The three loops in closed form\<close>

lemma spec_step_nat:
  assumes "k < 32" "i < 2 ^ k" "length sp = 2 ^ k"
  shows "spec_step fl (2 ^ k) maxbin i sp =
           sp[(2 ^ k - i) mod 2 ^ k := (f_lit fl (if i < unat maxbin then 1 else 0), f_lit fl 0),
              i := (f_lit fl (if i < unat maxbin then 1 else 0), f_lit fl 0)]"
proof -
  have i32: "i < 2 ^ 32"
    using assms(2) pow2_lt_word[OF assms(1)] by simp
  have ile: "i \<le> 2 ^ k" using assms(2) by simp
  have m: "unat (((2 ^ k :: uint) - of_nat i) AND (2 ^ k - 1)) = (2 ^ k - i) mod 2 ^ k"
    by (rule unat_mirror[OF assms(1) ile])
  have il: "i < length sp" using assms by simp
  have lt: "(of_nat i :: uint) < maxbin \<longleftrightarrow> i < unat maxbin"
    by (rule word_less_of_nat[OF i32])
  have mlt: "(2 ^ k - i) mod 2 ^ k < length sp"
    using assms by simp
  show ?thesis
    unfolding spec_step_def Let_def m lt set_re_def set_im_def
    apply (rule nth_equalityI)
     apply simp
    using mlt il apply (auto simp: nth_list_update)
    done
qed

lemma spec_fold_nth:
  assumes T: "T = 2 * H" "0 < H" and len: "length sp = T"
    and step: "\<And>i xs. i \<le> H \<Longrightarrow> length xs = T \<Longrightarrow>
        f i xs = xs[(T - i) mod T := c i, i := c i]"
  shows "i \<le> H + 1 \<Longrightarrow>
      length (fold f [0..<i] sp) = T
      \<and> (\<forall>j<T. fold f [0..<i] sp ! j =
            (if j < i \<or> T - i < j then c (if j \<le> H then j else T - j) else sp ! j))"
proof (induction i)
  case 0
  then show ?case using len by simp
next
  case (Suc i)
  then have iH: "i \<le> H" and IH: "length (fold f [0..<i] sp) = T"
    "\<And>j. j < T \<Longrightarrow> fold f [0..<i] sp ! j =
            (if j < i \<or> T - i < j then c (if j \<le> H then j else T - j) else sp ! j)"
    by simp_all
  let ?old = "fold f [0..<i] sp"
  have new: "fold f [0..<Suc i] sp = ?old[(T - i) mod T := c i, i := c i]"
    using step[OF iH IH(1)] by simp
  have m: "(T - i) mod T = (if i = 0 then 0 else T - i)"
    using T iH by auto
  show ?case
  proof (intro conjI allI impI)
    show "length (fold f [0..<Suc i] sp) = T" using new IH(1) by simp
  next
    fix j assume j: "j < T"
    have iT: "i < T" using T iH by simp
    show "fold f [0..<Suc i] sp ! j =
        (if j < Suc i \<or> T - Suc i < j then c (if j \<le> H then j else T - j) else sp ! j)"
      unfolding new m using j iT IH(1) IH(2)[OF j] T iH
      by (auto simp: nth_list_update)
  qed
qed



lemma unat_loop_bound:
  assumes "0 < k" "k < 32"
  shows "unat ((2 ^ k :: uint) div 2 + 1) = 2 ^ (k - 1) + 1"
proof -
  have h: "(2::nat) ^ (k - 1) < 2 ^ 31"
    using assms by (intro power_strict_increasing) simp_all
  have "unat ((2 ^ k :: uint) div 2) + unat (1 :: uint) < 2 ^ LENGTH(32)"
    using h by (simp add: unat_pow2_half[OF assms])
  then have "unat ((2 ^ k :: uint) div 2 + 1) = unat ((2 ^ k :: uint) div 2) + unat (1 :: uint)"
    by (rule unat_add_lem[THEN iffD1])
  then show ?thesis by (simp add: unat_pow2_half[OF assms])
qed

lemma pow2_double: "0 < k \<Longrightarrow> (2::nat) ^ k = 2 * 2 ^ (k - 1)"
  by (cases k) simp_all

lemma spec_loop_closed:
  assumes k: "0 < k" "k < 32" and len: "length sp = 2 ^ k"
  shows "fold (spec_step fl (2 ^ k) maxbin) [0..<unat ((2 ^ k :: uint) div 2 + 1)] sp
           = DesignSpectrum fl (2 ^ k) (unat maxbin)"
proof -
  let ?T = "(2::nat) ^ k" and ?H = "(2::nat) ^ (k - 1)"
  let ?c = "\<lambda>i. (f_lit fl (if i < unat maxbin then 1 else 0), f_lit fl 0)"
  have T: "?T = 2 * ?H" by (rule pow2_double[OF k(1)])
  have H: "0 < ?H" by simp
  have step: "spec_step fl (2 ^ k) maxbin i xs = xs[(?T - i) mod ?T := ?c i, i := ?c i]"
    if "i \<le> ?H" "length xs = ?T" for i xs
  proof -
    have "i < ?T" using that(1) T H by linarith
    then show ?thesis by (rule spec_step_nat[OF k(2) _ that(2)])
  qed
  have fin: "length (fold (spec_step fl (2 ^ k) maxbin) [0..<?H + 1] sp) = ?T
      \<and> (\<forall>j<?T. fold (spec_step fl (2 ^ k) maxbin) [0..<?H + 1] sp ! j =
            (if j < ?H + 1 \<or> ?T - (?H + 1) < j then ?c (if j \<le> ?H then j else ?T - j) else sp ! j))"
    by (rule spec_fold_nth[OF T H len step]) simp_all
  have half: "?T div 2 = ?H" using T by simp
  show ?thesis
    unfolding unat_loop_bound[OF k]
  proof (rule nth_equalityI)
    show "length (fold (spec_step fl (2 ^ k) maxbin) [0..<?H + 1] sp)
        = length (DesignSpectrum fl ?T (unat maxbin))"
      using fin by (simp add: DesignSpectrum_def)
  next
    fix j assume "j < length (fold (spec_step fl (2 ^ k) maxbin) [0..<?H + 1] sp)"
    then have j: "j < ?T" using fin by simp
    have cov: "j < ?H + 1 \<or> ?T - (?H + 1) < j" using T j by linarith
    have "fold (spec_step fl (2 ^ k) maxbin) [0..<?H + 1] sp ! j
        = ?c (if j \<le> ?H then j else ?T - j)"
      using fin j cov by presburger
    then show "fold (spec_step fl (2 ^ k) maxbin) [0..<?H + 1] sp ! j
        = DesignSpectrum fl ?T (unat maxbin) ! j"
      using j by (simp add: DesignSpectrum_def half Let_def)
  qed
qed

lemma fold_update_nth:
  assumes step: "\<And>n xs. n < m \<Longrightarrow> length xs = m \<Longrightarrow> f n xs = xs[n := g n]"
    and len: "length xs = m"
  shows "i \<le> m \<Longrightarrow> length (fold f [0..<i] xs) = m
      \<and> (\<forall>j<m. fold f [0..<i] xs ! j = (if j < i then g j else xs ! j))"
proof (induction i)
  case 0
  then show ?case using len by simp
next
  case (Suc i)
  then have im: "i < m" and IH: "length (fold f [0..<i] xs) = m"
    "\<And>j. j < m \<Longrightarrow> fold f [0..<i] xs ! j = (if j < i then g j else xs ! j)"
    by simp_all
  have new: "fold f [0..<Suc i] xs = (fold f [0..<i] xs)[i := g i]"
    using step[OF im IH(1)] by simp
  show ?case
    unfolding new using IH im by (auto simp: nth_list_update)
qed

lemma fold_update_map:
  assumes step: "\<And>n xs. n < m \<Longrightarrow> length xs = m \<Longrightarrow> f n xs = xs[n := g n]"
    and len: "length xs = m"
  shows "fold f [0..<m] xs = map g [0..<m]"
proof -
  have all: "length (fold f [0..<m] xs) = m
      \<and> (\<forall>j<m. fold f [0..<m] xs ! j = (if j < m then g j else xs ! j))"
    by (rule fold_update_nth[OF step len le_refl])
  have a: "length (fold f [0..<m] xs) = m"
    by (rule all[THEN conjunct1])
  have b: "fold f [0..<m] xs ! j = g j" if "j < m" for j
  proof -
    have "fold f [0..<m] xs ! j = (if j < m then g j else xs ! j)"
      using all that by blast
    then show ?thesis using that by simp
  qed
  show ?thesis
  proof (rule nth_equalityI)
    show "length (fold f [0..<m] xs) = length (map g [0..<m])"
      by (simp add: a)
  next
    fix j assume "j < length (fold f [0..<m] xs)"
    then have "j < m" by (simp only: a)
    then show "fold f [0..<m] xs ! j = map g [0..<m] ! j"
      by (simp add: b)
  qed
qed

lemma coeff_loop_closed:
  fixes fl :: "('a, 'b) float_arith"
  assumes k: "0 < k" "k < 32" and len: "length cf = 2 ^ k"
  shows "fold (coeff_step fl (2 ^ k) imp win) [0..<2 ^ k] cf
           = map (\<lambda>n. fmul fl (fst (imp ! ((n + 2 ^ k div 2) mod 2 ^ k))) (win ! n)) [0..<2 ^ k]"
proof (rule fold_update_map[OF _ len])
  fix n :: nat and xs :: "'a list"
  assume n: "n < 2 ^ k"
  have "(2::nat) ^ k div 2 = 2 ^ (k - 1)" using pow2_double[OF k(1)] by simp
  then show "coeff_step fl (2 ^ k) imp win n xs
      = xs[n := fmul fl (fst (imp ! ((n + 2 ^ k div 2) mod 2 ^ k))) (win ! n)]"
    by (simp add: coeff_step_def unat_recentre[OF k n])
qed

lemma window_loop_closed:
  fixes fl :: "('a, 'b) float_arith"
  assumes "N \<noteq> 0"
  shows "init_window fl N w = map (WindowCoefficients fl (unat N)) [0..<unat N]"
  unfolding init_window_def
proof (rule fold_update_map[OF _ vector_resize_length])
  fix n :: nat and xs :: "'a list"
  assume n: "n < unat N" "length xs = unat N"
  have "unat (N - 1) = unat N - 1" using assms by (rule unat_minus_one)
  then have "(of_nat (unat N - 1) :: uint) = of_nat (unat (N - 1))" by simp
  then have "(of_nat (unat N - 1) :: uint) = N - 1" by simp
  then show "window_step fl N n xs = xs[n := WindowCoefficients fl (unat N) n]"
    using n by (simp add: window_step_def WindowCoefficients_def Let_def)
qed

subsection \<open>The redesign\<close>


lemma pow2_word_neq_0: "k < 32 \<Longrightarrow> (2 ^ k :: uint) \<noteq> 0"
  using unat_pow2[of k] by (metis power_not_zero unat_0 zero_neq_numeral)

lemma designer_ready_init_arrays:
  assumes "firLength s = 2 ^ k" "0 < k" "k < 32" "inputSampleRate s \<noteq> 0"
  shows "designer_ready fl k (init_arrays fl s)"
proof -
  have w: "init_window fl (2 ^ k) (window s) = init_window fl (2 ^ k) []"
    using pow2_word_neq_0[OF assms(3)] by (simp add: window_loop_closed)
  show ?thesis
    using assms w by (simp add: designer_ready_def init_arrays_def Let_def unat_pow2)
qed

lemma recalculate_closed:
  assumes "designer_ready fl k s"
  shows "recalculate fl s =
     Some (s\<lparr>spec := DesignSpectrum fl (2 ^ k)
                        (unat (firLength s * passband s div inputSampleRate s div 2)),
             impulse := map (fftwf_out fl (DesignSpectrum fl (2 ^ k)
                        (unat (firLength s * passband s div inputSampleRate s div 2))))
                          [0..<2 ^ k],
             coeff := designed_taps fl (2 ^ k)
                        (unat (firLength s * passband s div inputSampleRate s div 2))\<rparr>)"
proof -
  from assms have k: "0 < k" "k < 32" and N: "firLength s = 2 ^ k"
    and r: "inputSampleRate s \<noteq> 0"
    and len: "length (spec s) = 2 ^ k" "length (impulse s) = 2 ^ k"
    and win: "window s = init_window fl (2 ^ k) []"
    by (simp_all add: designer_ready_def)
  have uN: "unat (2 ^ k :: uint) = 2 ^ k" by (rule unat_pow2[OF k(2)])
  have N0: "(2 ^ k :: uint) \<noteq> 0" by (rule pow2_word_neq_0[OF k(2)])
  have wc: "window s = map (WindowCoefficients fl (2 ^ k)) [0..<2 ^ k]"
    using window_loop_closed[OF N0, where w = "[]" and fl = fl] by (simp add: win uN)
  let ?mb = "(2 ^ k :: uint) * passband s div inputSampleRate s div 2"
  let ?sp = "DesignSpectrum fl (2 ^ k) (unat ?mb)"
  let ?imp = "map (fftwf_out fl ?sp) [0..<2 ^ k]"
  have sp: "fold (spec_step fl (2 ^ k) ?mb) [0..<unat ((2 ^ k :: uint) div 2 + 1)] (spec s) = ?sp"
    by (rule spec_loop_closed[OF k len(1)])
  have cf: "fold (coeff_step fl (2 ^ k) ?imp (window s)) [0..<2 ^ k]
              (vector_resize (coeff s) (2 ^ k) (f_zero fl))
          = map (\<lambda>n. fmul fl (fst (?imp ! ((n + 2 ^ k div 2) mod 2 ^ k))) (window s ! n))
              [0..<2 ^ k]"
    by (rule coeff_loop_closed[OF k vector_resize_length])
  have cf': "map (\<lambda>n. fmul fl (fst (?imp ! ((n + 2 ^ k div 2) mod 2 ^ k))) (window s ! n))
              [0..<2 ^ k]
          = designed_taps fl (2 ^ k) (unat ?mb)"
    by (simp add: designed_taps_def wc)
  note cf2 = cf[unfolded cf']
  have guard: "\<not> (firLength s = 0 \<or> length (spec s) \<noteq> unat (firLength s)
              \<or> length (impulse s) \<noteq> unat (firLength s)
              \<or> length (window s) < unat (firLength s))"
    using N0 len by (simp add: N uN wc)
  show ?thesis
    unfolding recalculate_def Let_def
    using r guard by (simp add: N uN sp cf2)
qed

lemma designer_ready_recalculate:
  assumes "designer_ready fl k s" "recalculate fl s = Some s'"
  shows "designer_ready fl k s'"
proof -
  have "length (DesignSpectrum fl (2 ^ k) m) = 2 ^ k" for m
    by (simp add: DesignSpectrum_def)
  then show ?thesis
    using assms by (auto simp: recalculate_closed[OF assms(1)] designer_ready_def)
qed

lemma cutoff_bin_code:
  fixes N pb r :: uint
  assumes "unat N * unat pb < 2 ^ 32"
  shows "unat (N * pb div r div 2) = cutoff_bin (unat N) (unat pb) (unat r)"
  by (simp only: unat_maxbin[OF assms] cutoff_bin_def floor_maxbin)

lemma DesignSpectrum_mirrored:
  assumes "0 < T" "n \<le> T div 2"
  shows "DesignSpectrum fl T mb ! n = (f_lit fl (if n < mb then 1 else 0), f_lit fl 0)"
    and "DesignSpectrum fl T mb ! ((T - n) mod T) = (f_lit fl (if n < mb then 1 else 0), f_lit fl 0)"
proof -
  have n: "n < T" using assms by linarith
  show "DesignSpectrum fl T mb ! n = (f_lit fl (if n < mb then 1 else 0), f_lit fl 0)"
    using n assms by (simp add: DesignSpectrum_def)
  show "DesignSpectrum fl T mb ! ((T - n) mod T) = (f_lit fl (if n < mb then 1 else 0), f_lit fl 0)"
  proof (cases "n = 0")
    case True
    then show ?thesis using assms by (simp add: DesignSpectrum_def)
  next
    case False
    then have m: "(T - n) mod T = T - n" "T - n < T" using n by simp_all
    have "T - n \<le> T div 2 \<Longrightarrow> T - n = n" using assms n by linarith
    then show ?thesis
      unfolding m using m(2) n by (auto simp: DesignSpectrum_def Let_def)
  qed
qed

text \<open>
  Claim C1, as the code has it. In a state that \<open>init\<close> has prepared (tap count
  \<open>2\<^sup>k\<close>, non-zero input rate, the window of lines 93--99), and when the product
  \<open>tapCount * passbandHz\<close> fits 32 bits, \<open>recalculate\<close> returns and leaves what the
  specification describes, in the arithmetic of the code: the spectrum has \<open>tapCount\<close>
  bins, bin \<open>n\<close> in \<open>[0, tapCount/2]\<close> is 1.0 below
  \<open>floor(tapCount * passbandHz / inputSampleRate / 2)\<close> and 0.0 from there on, with
  imaginary part 0.0, and bin \<open>(tapCount - n) mod tapCount\<close> equals it; the impulse
  response is what \<^verbatim>\<open>fftwf_execute\<close> computes for that spectrum as the backward
  transform; and coefficient \<open>n\<close> is the single-precision product of the real part of
  transform bin \<open>(n + tapCount/2) mod tapCount\<close> and the window value, which is
  \<open>(0.54 - 0.46 cos(2\<pi>n/(tapCount-1))) / tapCount\<close> as lines 97--98 evaluate it: the
  argument of the cosine and the difference in double precision, the cosine and the
  division in single precision. The statement holds whatever the floating-point
  operations are, so for the rounded ones of the machine.
\<close>

theorem recalculate_reference:
  assumes "designer_ready fl k s"
    and "unat (firLength s) * unat (passband s) < 2 ^ 32"
  shows "\<exists>s'. recalculate fl s = Some s'
       \<and> length (spec s') = unat (firLength s)
       \<and> (\<forall>n \<le> unat (firLength s) div 2.
             spec s' ! n
               = (f_lit fl (if n < cutoff_bin (unat (firLength s)) (unat (passband s))
                                     (unat (inputSampleRate s)) then 1 else 0), f_lit fl 0)
           \<and> spec s' ! ((unat (firLength s) - n) mod unat (firLength s)) = spec s' ! n)
       \<and> impulse s' = map (fftwf_out fl (spec s')) [0..<unat (firLength s)]
       \<and> length (coeff s') = unat (firLength s)
       \<and> (\<forall>n < unat (firLength s).
             window s ! n
               = fdiv fl (hamming fl (f_of_uint fl (of_nat n)) (f_of_uint fl (firLength s - 1)))
                   (f_of_uint fl (firLength s))
           \<and> coeff s' ! n
               = fmul fl (fst (impulse s'
                                 ! ((n + unat (firLength s) div 2) mod unat (firLength s))))
                   (window s ! n))
       \<and> coeff s' = TapCoefficients fl (unat (firLength s)) (unat (passband s))
                       (unat (inputSampleRate s))"
proof -
  from assms(1) have k: "0 < k" "k < 32" and N: "firLength s = 2 ^ k"
    and win: "window s = init_window fl (2 ^ k) []"
    by (simp_all add: designer_ready_def)
  have uN: "unat (firLength s) = 2 ^ k" by (simp add: N unat_pow2[OF k(2)])
  have T: "0 < (2::nat) ^ k" by simp
  have N0: "(2 ^ k :: uint) \<noteq> 0" by (rule pow2_word_neq_0[OF k(2)])
  have "(of_nat (unat (2 ^ k :: uint) - 1) :: uint) = of_nat (unat (2 ^ k - 1 :: uint))"
    using unat_minus_one[OF N0] by simp
  then have last: "(of_nat (2 ^ k - 1) :: uint) = 2 ^ k - 1"
    by (simp add: unat_pow2[OF k(2)])
  have wc: "window s = map (WindowCoefficients fl (2 ^ k)) [0..<2 ^ k]"
    using window_loop_closed[OF N0, where w = "[]" and fl = fl]
    by (simp add: win unat_pow2[OF k(2)])
  have w: "window s ! n
      = fdiv fl (hamming fl (f_of_uint fl (of_nat n)) (f_of_uint fl (2 ^ k - 1)))
          (f_of_uint fl (2 ^ k))" if "n < 2 ^ k" for n
    using that by (simp add: wc WindowCoefficients_def last)
  let ?mb = "cutoff_bin (2 ^ k) (unat (passband s)) (unat (inputSampleRate s))"
  let ?sp = "DesignSpectrum fl (2 ^ k) ?mb"
  have mb: "unat (firLength s * passband s div inputSampleRate s div 2) = ?mb"
    using cutoff_bin_code[OF assms(2)] by (simp add: uN)
  have rc: "recalculate fl s = Some (s\<lparr>spec := ?sp,
             impulse := map (fftwf_out fl ?sp) [0..<2 ^ k],
             coeff := designed_taps fl (2 ^ k) ?mb\<rparr>)"
    using recalculate_closed[OF assms(1)] by (simp only: mb)
  have taps: "designed_taps fl (2 ^ k) ?mb ! n
      = fmul fl (fst (map (fftwf_out fl ?sp) [0..<2 ^ k] ! ((n + 2 ^ k div 2) mod 2 ^ k)))
          (window s ! n)" if "n < 2 ^ k" for n
    using that by (simp add: designed_taps_def wc)
  have len: "length ?sp = 2 ^ k" "length (designed_taps fl (2 ^ k) ?mb) = 2 ^ k"
    by (simp_all add: DesignSpectrum_def designed_taps_def)
  have mir: "\<forall>n \<le> 2 ^ k div 2.
      ?sp ! n = (f_lit fl (if n < ?mb then 1 else 0), f_lit fl 0)
      \<and> ?sp ! ((2 ^ k - n) mod 2 ^ k) = ?sp ! n"
    by (simp add: DesignSpectrum_mirrored[OF T])
  have cfs: "\<forall>n < 2 ^ k.
      window s ! n
        = fdiv fl (hamming fl (f_of_uint fl (of_nat n)) (f_of_uint fl (2 ^ k - 1)))
            (f_of_uint fl (2 ^ k))
      \<and> designed_taps fl (2 ^ k) ?mb ! n
        = fmul fl (fst (map (fftwf_out fl ?sp) [0..<2 ^ k] ! ((n + 2 ^ k div 2) mod 2 ^ k)))
            (window s ! n)"
    using w taps by blast
  show ?thesis
    unfolding rc uN N
    using len mir cfs by (simp add: TapCoefficients_def unat_pow2[OF k(2)])
qed

lemma FIR_LENGTH_pow2: "FIR_LENGTH = 2 ^ 6"
  by (simp add: FIR_LENGTH_def)

lemma example_48k_fields:
  "firLength (example_48k fl) = 64" "passband (example_48k fl) = 6000"
  "inputSampleRate (example_48k fl) = 48000" "inputChannels (example_48k fl) = 2"
  "decimation (example_48k fl) = 2" "decimationCount (example_48k fl) = 0"
  "headpos (example_48k fl) = 0"
  "\<not> isRunning (example_48k fl)" "coeff (example_48k fl) = []"
  by (simp_all add: example_48k_def config_48k_def init_arrays_def LowPass_def host_48k_def
        Let_def FIR_LENGTH_def)

lemma designer_ready_example: "designer_ready fl 6 (example_48k fl)"
  unfolding example_48k_def
  by (rule designer_ready_init_arrays)
    (simp_all add: config_48k_def LowPass_def host_48k_def FIR_LENGTH_def)

lemma designer_ready_running:
  "designer_ready fl k (s\<lparr>isRunning := b\<rparr>) = designer_ready fl k s"
  by (simp add: designer_ready_def)

lemma designer_ready_passband:
  "designer_ready fl k (s\<lparr>passband := hz\<rparr>) = designer_ready fl k s"
  by (simp add: designer_ready_def)

subsection \<open>The reference in exact arithmetic\<close>

text \<open>
  Without rounding, the literals are their values, the window is the specification's
  formula over the reals, and the output sample is its sum.
\<close>

lemma exact_arith_simps:
  "lit exact_arith x = x" "m_pi exact_arith = pi"
  "d_of_f exact_arith x = x" "f_of_d exact_arith x = x"
  "f_of_uint exact_arith n = real (unat n)"
  "dmul exact_arith x y = x * y" "ddiv exact_arith x y = x / y" "dsub exact_arith x y = x - y"
  "cosf exact_arith x = cos x"
  "fadd exact_arith x y = x + y" "fmul exact_arith x y = x * y" "fdiv exact_arith x y = x / y"
  "fftwf_out exact_arith X j = inverse_dft X j"
  "f_lit exact_arith x = x" "f_zero exact_arith = 0"
  by (simp_all add: exact_arith_def f_lit_def f_zero_def)

lemma hamming_exact:
  "hamming exact_arith n m = 0.54 - 0.46 * cos (2 * pi * n / m)"
  by (simp add: hamming_def exact_arith_simps)

lemma WindowCoefficients_exact:
  assumes "n < 2 ^ 32" "T < 2 ^ 32"
  shows "WindowCoefficients exact_arith T n
           = (0.54 - 0.46 * cos (2 * pi * real n / real (T - 1))) / real T"
proof -
  have "T - 1 < 2 ^ 32" using assms(2) by simp
  then show ?thesis
    using assms
    by (simp only: WindowCoefficients_def hamming_exact exact_arith_simps unat_of_nat_small)
qed

lemma tap_sum_exact:
  "tap_sum exact_arith taps history head T
     = (\<Sum>tap<T. taps ! tap * history ! nat ((int head - int tap) mod int T))"
proof -
  have "foldl (\<lambda>acc tap. acc + f tap) a [0..<n] = a + (\<Sum>tap<n. f tap)"
    for f :: "nat \<Rightarrow> real" and a n
    by (induction n) simp_all
  then show ?thesis
    by (simp add: tap_sum_def exact_arith_simps)
qed

theorem recalculate_reference_witness:
  "designer_ready exact_arith 6 (example_48k exact_arith)
   \<and> unat (firLength (example_48k exact_arith)) * unat (passband (example_48k exact_arith))
       < 2 ^ 32
   \<and> (\<exists>s'. recalculate exact_arith (example_48k exact_arith) = Some s'
          \<and> coeff s' = TapCoefficients exact_arith 64 6000 48000)
   \<and> cutoff_bin 64 6000 48000 = 4"
proof -
  have o: "unat (firLength (example_48k exact_arith)) * unat (passband (example_48k exact_arith))
      < 2 ^ 32"
    by (simp add: example_48k_fields)
  have c: "cutoff_bin 64 6000 48000 = 4"
    by (simp only: cutoff_bin_def floor_maxbin)
  from recalculate_reference[OF designer_ready_example o] c o designer_ready_example
  show ?thesis by (auto simp: example_48k_fields)
qed

lemma inverse_dft_zero:
  assumes "\<forall>j<length X. X ! j = (0, 0)"
  shows "inverse_dft X i = (0, 0)"
  using assms by (simp add: inverse_dft_def Let_def zero_complex.code)

lemma inverse_dft_ones_0:
  assumes "\<forall>j<length X. X ! j = (1, 0)"
  shows "inverse_dft X 0 = (real (length X), 0)"
proof -
  have "(\<Sum>j<length X. Complex (fst (X ! j)) (snd (X ! j)) * cis (2 * pi * real j * real 0
            / real (length X))) = (\<Sum>j<length X. 1)"
    by (rule sum.cong) (simp_all add: assms one_complex.code)
  then show ?thesis by (simp add: inverse_dft_def Let_def)
qed

lemma designed_taps_0:
  assumes "n < T"
  shows "designed_taps exact_arith T 0 ! n = 0"
proof -
  have "inverse_dft (DesignSpectrum exact_arith T 0) i = (0, 0)" for i
    by (rule inverse_dft_zero) (simp add: DesignSpectrum_def Let_def exact_arith_simps)
  then show ?thesis
    using assms by (simp add: designed_taps_def exact_arith_simps)
qed

lemma WindowCoefficients_pos:
  assumes "0 < T" "n < 2 ^ 32" "T < 2 ^ 32"
  shows "0 < WindowCoefficients exact_arith T n"
proof -
  have "cos (2 * pi * real n / real (T - 1)) \<le> 1" by (rule cos_le_one)
  then have "23 * cos (2 * pi * real n / real (T - 1)) < 27" by linarith
  then have "0 < 0.54 - 0.46 * cos (2 * pi * real n / real (T - 1))" by simp
  then show ?thesis using assms by (simp add: WindowCoefficients_exact)
qed

lemma designed_taps_allpass:
  assumes "0 < H" "H < mb"
  shows "designed_taps exact_arith (2 * H) mb ! H
           = real (2 * H) * WindowCoefficients exact_arith (2 * H) H"
proof -
  have "inverse_dft (DesignSpectrum exact_arith (2 * H) mb) 0
      = (real (length (DesignSpectrum exact_arith (2 * H) mb)), 0)"
    using assms
    by (intro inverse_dft_ones_0) (auto simp: DesignSpectrum_def Let_def exact_arith_simps)
  then have "fst (inverse_dft (DesignSpectrum exact_arith (2 * H) mb) 0) = real (2 * H)"
    by (simp add: DesignSpectrum_def)
  moreover have "(H + 2 * H div 2) mod (2 * H) = 0" by (simp flip: mult_2)
  ultimately show ?thesis using assms by (simp add: designed_taps_def exact_arith_simps)
qed

text \<open>
  The claim fails for every passband: the code multiplies \<open>_firLength * _passband\<close> in
  32 bits. With 64 taps at 48 kHz and a passband of 67108864 Hz the product \<open>2\<^sup>3\<^sup>2\<close>
  wraps to 0 and the cutoff bin is 0 instead of 44739: in every arithmetic the code
  leaves the design for a cutoff bin of 0, a spectrum of 0.0 throughout, where the
  specification has 1.0 throughout. Without rounding, all coefficients are then 0,
  whereas coefficient 32 of the reference is not. And with an input rate of 0 the
  division of line 169 has no result.
\<close>

theorem recalculate_overflow_counterexample:
  "(\<forall>fl :: (real, real) float_arith.
      \<exists>s'. recalculate fl ((example_48k fl)\<lparr>passband := 67108864\<rparr>) = Some s'
         \<and> spec s' = replicate 64 (f_lit fl 0, f_lit fl 0)
         \<and> DesignSpectrum fl 64 (cutoff_bin 64 67108864 48000)
             = replicate 64 (f_lit fl 1, f_lit fl 0))
   \<and> cutoff_bin 64 67108864 48000 = 44739
   \<and> (\<exists>s'. recalculate exact_arith ((example_48k exact_arith)\<lparr>passband := 67108864\<rparr>) = Some s'
      \<and> coeff s' \<noteq> TapCoefficients exact_arith 64 67108864 48000)
   \<and> recalculate exact_arith ((example_48k exact_arith)\<lparr>inputSampleRate := 0\<rparr>) = None"
proof -
  have zero: "recalculate exact_arith ((example_48k exact_arith)\<lparr>inputSampleRate := 0\<rparr>) = None"
    by (simp add: recalculate_def)
  have c: "cutoff_bin 64 67108864 48000 = 44739"
    by (simp only: cutoff_bin_def floor_maxbin)
  have rc: "recalculate fl ((example_48k fl)\<lparr>passband := 67108864\<rparr>)
      = Some ((example_48k fl)\<lparr>passband := 67108864, spec := DesignSpectrum fl (2 ^ 6) 0,
          impulse := map (fftwf_out fl (DesignSpectrum fl (2 ^ 6) 0)) [0..<2 ^ 6],
          coeff := designed_taps fl (2 ^ 6) 0\<rparr>)" for fl :: "(real, real) float_arith"
  proof -
    let ?s = "(example_48k fl)\<lparr>passband := 67108864\<rparr>"
    have r: "designer_ready fl 6 ?s"
      by (simp add: designer_ready_passband designer_ready_example)
    have mb: "unat (firLength ?s * passband ?s div inputSampleRate ?s div 2) = 0"
      by (simp add: example_48k_fields)
    show ?thesis using recalculate_closed[OF r] by (simp only: mb)
  qed
  have code_sp: "DesignSpectrum fl 64 0 = replicate 64 (f_lit fl 0, f_lit fl 0)"
    for fl :: "(real, real) float_arith"
    by (rule nth_equalityI) (simp_all add: DesignSpectrum_def Let_def)
  have ref_sp: "DesignSpectrum fl 64 44739 = replicate 64 (f_lit fl 1, f_lit fl 0)"
    for fl :: "(real, real) float_arith"
    by (rule nth_equalityI) (auto simp: DesignSpectrum_def Let_def)
  have code: "designed_taps exact_arith 64 0 ! 32 = 0" by (rule designed_taps_0) simp
  have "designed_taps exact_arith (2 * 32) 44739 ! 32
      = real (2 * 32) * WindowCoefficients exact_arith (2 * 32) 32"
    by (rule designed_taps_allpass) simp_all
  moreover have "0 < WindowCoefficients exact_arith (2 * 32) 32"
    by (rule WindowCoefficients_pos) simp_all
  ultimately have ref: "TapCoefficients exact_arith 64 67108864 48000 ! 32 \<noteq> 0"
    by (simp add: TapCoefficients_def c)
  have ne: "designed_taps exact_arith 64 0 \<noteq> TapCoefficients exact_arith 64 67108864 48000"
    using code ref by metis
  show ?thesis
    using zero c ne by (simp add: rc code_sp ref_sp)
qed

text \<open>
  Claim C6. On a running block that \<open>init\<close> has prepared, \<open>setPassband\<close> returns the
  result of \<open>recalculate\<close> on the object with the new passband: the coefficients are
  the ones designed for the new passband, and nothing but the passband, the spectrum,
  the impulse response and the coefficients has changed; in particular the sample
  history \<open>fir\<close>, \<open>headpos\<close> and \<open>decimationCount\<close> are as before.
\<close>

theorem setPassband_frame:
  assumes "isRunning s" and "designer_ready fl k s"
  shows "\<exists>s'. setPassband fl hz s = Some s'
       \<and> recalculate fl (s\<lparr>passband := hz\<rparr>) = Some s'
       \<and> coeff s' = designed_taps fl (unat (firLength s))
                       (unat (firLength s * hz div inputSampleRate s div 2))
       \<and> fir s' = fir s \<and> headpos s' = headpos s \<and> decimationCount s' = decimationCount s
       \<and> s' = s\<lparr>passband := hz, spec := spec s', impulse := impulse s', coeff := coeff s'\<rparr>"
proof -
  have r: "designer_ready fl k (s\<lparr>passband := hz\<rparr>)"
    using assms(2) by (simp add: designer_ready_passband)
  from assms(2) have uN: "unat (firLength s) = 2 ^ k"
    by (simp add: designer_ready_def unat_pow2)
  show ?thesis
    using assms(1) by (simp add: setPassband_def recalculate_closed[OF r] uN)
qed

theorem setPassband_frame_witness:
  "isRunning ((example_48k exact_arith)\<lparr>isRunning := True\<rparr>)
   \<and> designer_ready exact_arith 6 ((example_48k exact_arith)\<lparr>isRunning := True\<rparr>)
   \<and> (\<exists>s'. setPassband exact_arith 3000 ((example_48k exact_arith)\<lparr>isRunning := True\<rparr>) = Some s'
         \<and> coeff s' = designed_taps exact_arith 64 2
         \<and> fir s' = fir (example_48k exact_arith) \<and> headpos s' = 0 \<and> decimationCount s' = 0)"
proof -
  have r: "designer_ready exact_arith 6 ((example_48k exact_arith)\<lparr>isRunning := True\<rparr>)"
    by (simp add: designer_ready_running designer_ready_example)
  have i: "isRunning ((example_48k exact_arith)\<lparr>isRunning := True\<rparr>)" by simp
  from setPassband_frame[OF i r, of 3000] obtain s' where
    "setPassband exact_arith 3000 ((example_48k exact_arith)\<lparr>isRunning := True\<rparr>) = Some s'"
    "coeff s' = designed_taps exact_arith (unat (firLength ((example_48k exact_arith)\<lparr>isRunning := True\<rparr>)))
       (unat (firLength ((example_48k exact_arith)\<lparr>isRunning := True\<rparr>) * 3000
          div inputSampleRate ((example_48k exact_arith)\<lparr>isRunning := True\<rparr>) div 2))"
    "fir s' = fir ((example_48k exact_arith)\<lparr>isRunning := True\<rparr>)"
    "headpos s' = headpos ((example_48k exact_arith)\<lparr>isRunning := True\<rparr>)"
    "decimationCount s' = decimationCount ((example_48k exact_arith)\<lparr>isRunning := True\<rparr>)"
    by blast
  then show ?thesis using r by (simp add: example_48k_fields)
qed

text \<open>
  Claim C8. In a state that \<open>init\<close> has prepared, \<open>recalculate\<close> returns a state on
  which a second \<open>recalculate\<close> changes nothing, so the coefficients are the same both
  times; and the coefficients depend on the state only through the passband, the tap
  count and the input rate: any other prepared state with the same three gives the
  same coefficients.
\<close>

theorem recalculate_idempotent:
  assumes "designer_ready fl k s"
  shows "\<exists>s1. recalculate fl s = Some s1 \<and> recalculate fl s1 = Some s1
       \<and> (\<forall>t. designer_ready fl k t \<and> passband t = passband s
                \<and> inputSampleRate t = inputSampleRate s
              \<longrightarrow> (\<exists>t1. recalculate fl t = Some t1 \<and> coeff t1 = coeff s1))"
proof -
  let ?mb = "unat (firLength s * passband s div inputSampleRate s div 2)"
  let ?s1 = "s\<lparr>spec := DesignSpectrum fl (2 ^ k) ?mb,
             impulse := map (fftwf_out fl (DesignSpectrum fl (2 ^ k) ?mb)) [0..<2 ^ k],
             coeff := designed_taps fl (2 ^ k) ?mb\<rparr>"
  have 1: "recalculate fl s = Some ?s1" by (rule recalculate_closed[OF assms])
  then have r1: "designer_ready fl k ?s1" by (rule designer_ready_recalculate[OF assms])
  have 2: "recalculate fl ?s1 = Some ?s1"
    using recalculate_closed[OF r1] by simp
  have 3: "\<exists>t1. recalculate fl t = Some t1 \<and> coeff t1 = coeff ?s1"
    if "designer_ready fl k t" "passband t = passband s" "inputSampleRate t = inputSampleRate s" for t
  proof -
    have "firLength t = firLength s" using that(1) assms by (simp add: designer_ready_def)
    then show ?thesis using recalculate_closed[OF that(1)] that(2,3) by simp
  qed
  from 1 2 3 show ?thesis by blast
qed

theorem recalculate_idempotent_witness:
  "designer_ready exact_arith 6 (example_48k exact_arith)
   \<and> (\<exists>s1. recalculate exact_arith (example_48k exact_arith) = Some s1 \<and> recalculate exact_arith s1 = Some s1
        \<and> (\<exists>t1. recalculate exact_arith ((example_48k exact_arith)\<lparr>headpos := 5\<rparr>) = Some t1 \<and> coeff t1 = coeff s1))"
proof -
  have t: "designer_ready exact_arith 6 ((example_48k exact_arith)\<lparr>headpos := 5\<rparr>)"
    using designer_ready_example by (simp add: designer_ready_def)
  from recalculate_idempotent[OF designer_ready_example] obtain s1 where
    s1: "recalculate exact_arith (example_48k exact_arith) = Some s1" "recalculate exact_arith s1 = Some s1"
    "\<forall>t. designer_ready exact_arith 6 t \<and> passband t = passband (example_48k exact_arith)
                \<and> inputSampleRate t = inputSampleRate (example_48k exact_arith)
              \<longrightarrow> (\<exists>t1. recalculate exact_arith t = Some t1 \<and> coeff t1 = coeff s1)"
    by blast
  from s1(3) t have "\<exists>t1. recalculate exact_arith ((example_48k exact_arith)\<lparr>headpos := 5\<rparr>) = Some t1 \<and> coeff t1 = coeff s1"
    by simp
  with s1(1,2) designer_ready_example show ?thesis by blast
qed

section \<open>The streaming convolver\<close>

subsection \<open>One input frame\<close>


lemma fold_offset_update:
  assumes step: "\<And>c ys. c < n \<Longrightarrow> length ys = length xs \<Longrightarrow>
      f c ys = ys[p + c := g c (ys ! (p + c))]"
    and room: "p + n \<le> length xs"
  shows "m \<le> n \<Longrightarrow> length (fold f [0..<m] xs) = length xs
      \<and> (\<forall>i<length xs. fold f [0..<m] xs ! i =
            (if p \<le> i \<and> i < p + m then g (i - p) (xs ! i) else xs ! i))"
proof (induction m)
  case 0
  then show ?case by auto
next
  case (Suc m)
  then have mn: "m < n" and IH: "length (fold f [0..<m] xs) = length xs"
    "\<And>i. i < length xs \<Longrightarrow> fold f [0..<m] xs ! i =
            (if p \<le> i \<and> i < p + m then g (i - p) (xs ! i) else xs ! i)"
    by simp_all
  let ?old = "fold f [0..<m] xs"
  have new: "fold f [0..<Suc m] xs = ?old[p + m := g m (?old ! (p + m))]"
    using step[OF mn IH(1)] by simp
  have pm: "p + m < length xs" using mn room by simp
  show ?case
    unfolding new using IH(1) IH(2) IH(2)[OF pm] pm
    by (auto simp: nth_list_update)
qed

lemma fold_offset_update_nth:
  assumes step: "\<And>c ys. c < n \<Longrightarrow> length ys = length xs \<Longrightarrow>
      f c ys = ys[p + c := g c (ys ! (p + c))]"
    and room: "p + n \<le> length xs"
  shows "length (fold f [0..<n] xs) = length xs"
    and "i < length xs \<Longrightarrow> fold f [0..<n] xs ! i =
            (if p \<le> i \<and> i < p + n then g (i - p) (xs ! i) else xs ! i)"
proof -
  have all: "length (fold f [0..<n] xs) = length xs
      \<and> (\<forall>i<length xs. fold f [0..<n] xs ! i =
            (if p \<le> i \<and> i < p + n then g (i - p) (xs ! i) else xs ! i))"
    by (rule fold_offset_update[OF step room le_refl])
  show "length (fold f [0..<n] xs) = length xs" by (rule all[THEN conjunct1])
  show "fold f [0..<n] xs ! i =
            (if p \<le> i \<and> i < p + n then g (i - p) (xs ! i) else xs ! i)" if "i < length xs"
    using all that by blast
qed

lemma store_frame_fir:
  fixes s :: "'a lowpass"
  assumes "length (fir s) = unat (inputChannels s)"
  shows "fir (store_frame s frame)
           = map (\<lambda>c. (fir s ! c)[unat (headpos s) := frame ! c]) [0..<unat (inputChannels s)]"
proof -
  let ?f = "\<lambda>c f. f[c := (f ! c)[unat (headpos s) := frame ! c]]"
  let ?n = "unat (inputChannels s)"
  have step: "?f c ys = ys[0 + c := (\<lambda>c row. row[unat (headpos s) := frame ! c]) c (ys ! (0 + c))]"
    for c and ys :: "'a list list"
    by simp
  have room: "0 + ?n \<le> length (fir s)" using assms by simp
  note r = fold_offset_update_nth[of ?n "fir s" ?f 0, OF step room]
  show ?thesis
  proof (rule nth_equalityI)
    show "length (fir (store_frame s frame))
        = length (map (\<lambda>c. (fir s ! c)[unat (headpos s) := frame ! c]) [0..<?n])"
      using r(1) assms by (simp add: store_frame_def)
  next
    fix i assume "i < length (fir (store_frame s frame))"
    then have i: "i < length (fir s)" using r(1) by (simp add: store_frame_def)
    show "fir (store_frame s frame) ! i
        = map (\<lambda>c. (fir s ! c)[unat (headpos s) := frame ! c]) [0..<?n] ! i"
      using r(2)[OF i] i assms by (simp add: store_frame_def)
  qed
qed


text \<open>
  The taps loop after \<open>t\<close> taps: \<open>idx\<close> is \<open>(headpos - t) mod tapCount\<close>, and each sample
  of the output frame has had the first \<open>t\<close> products added to it, one after the other.
\<close>

lemma tap_fold:
  fixes fl :: "('a, 'b) float_arith" and s :: "'a lowpass" and opos :: nat
    and out0 :: "'a list" and k :: nat
  defines "ch \<equiv> unat (inputChannels s)"
  defines "tapsum \<equiv> \<lambda>t c a. foldl (\<lambda>acc tap. fadd fl acc (fmul fl (coeff s ! tap)
              (fir s ! c ! nat ((uint (headpos s) - int tap) mod 2 ^ k)))) a [0..<t]"
  assumes k: "k < 32" and N: "firLength s = 2 ^ k" and h: "uint (headpos s) < 2 ^ k"
    and room: "opos + ch \<le> length out0"
  shows "uint (snd (fold (tap_step fl s opos) [0..<t] (out0, headpos s)))
           = (uint (headpos s) - int t) mod 2 ^ k
       \<and> length (fst (fold (tap_step fl s opos) [0..<t] (out0, headpos s))) = length out0
       \<and> (\<forall>i<length out0. fst (fold (tap_step fl s opos) [0..<t] (out0, headpos s)) ! i =
             (if opos \<le> i \<and> i < opos + ch then tapsum t (i - opos) (out0 ! i) else out0 ! i))"
proof (induction t)
  case 0
  have "uint (headpos s) mod 2 ^ k = uint (headpos s)"
    using h by (simp add: mod_pos_pos_trivial)
  then show ?case by (simp add: tapsum_def)
next
  case (Suc t)
  obtain o_t idx where st: "fold (tap_step fl s opos) [0..<t] (out0, headpos s) = (o_t, idx)"
    by (cases "fold (tap_step fl s opos) [0..<t] (out0, headpos s)")
  from Suc st have idx: "uint idx = (uint (headpos s) - int t) mod 2 ^ k"
    and len: "length o_t = length out0"
    and val: "\<And>i. i < length out0 \<Longrightarrow> o_t ! i =
             (if opos \<le> i \<and> i < opos + ch then tapsum t (i - opos) (out0 ! i) else out0 ! i)"
    by simp_all
  let ?inner = "\<lambda>c out. out[opos + c :=
      fadd fl (out ! (opos + c)) (fmul fl (coeff s ! t) (fir s ! c ! unat idx))]"
  have step: "?inner c ys
      = ys[opos + c := (\<lambda>c x. fadd fl x (fmul fl (coeff s ! t) (fir s ! c ! unat idx))) c
                          (ys ! (opos + c))]"
    for c and ys :: "'a list"
    by simp
  have room': "opos + ch \<le> length o_t" using room len by simp
  note r = fold_offset_update_nth[of ch o_t ?inner opos, OF step room']
  have new: "fold (tap_step fl s opos) [0..<Suc t] (out0, headpos s)
      = (fold ?inner [0..<ch] o_t, (idx - 1) AND (2 ^ k - 1))"
    by (simp add: st tap_step_def ch_def N)
  have uidx: "unat idx = nat ((uint (headpos s) - int t) mod 2 ^ k)"
    using idx by (simp add: unat_eq_nat_uint)
  have k': "k \<le> 32" using k by simp
  have a: "uint ((idx - 1) AND (2 ^ k - 1)) = (uint (headpos s) - int (Suc t)) mod 2 ^ k"
  proof -
    have "uint ((idx - 1) AND (2 ^ k - 1)) = (uint idx - 1) mod 2 ^ k"
      by (rule uint_idx_step[OF k'])
    also have "\<dots> = ((uint (headpos s) - int t) mod 2 ^ k - 1) mod 2 ^ k"
      by (simp only: idx)
    also have "\<dots> = (uint (headpos s) - int t - 1) mod 2 ^ k"
      by (rule mod_diff_left_eq)
    also have "uint (headpos s) - int t - 1 = uint (headpos s) - int (Suc t)" by simp
    finally show ?thesis .
  qed
  have b: "length (fold ?inner [0..<ch] o_t) = length out0"
    using r(1) len by simp
  have c: "fold ?inner [0..<ch] o_t ! i =
        (if opos \<le> i \<and> i < opos + ch then tapsum (Suc t) (i - opos) (out0 ! i) else out0 ! i)"
    if "i < length out0" for i
  proof -
    have i: "i < length o_t" using that len by simp
    show ?thesis
      using r(2)[OF i] val[OF that] by (simp add: tapsum_def uidx)
  qed
  show ?case
    unfolding new using a b c by simp
qed

lemma generate_output_nth:
  fixes fl :: "('a, 'b) float_arith" and s :: "'a lowpass"
  assumes k: "k < 32" and N: "firLength s = 2 ^ k" and h: "headpos s < firLength s"
    and room: "opos + unat (inputChannels s) \<le> length out"
  shows "length (generate_output fl s out opos) = length out"
    and "i < length out \<Longrightarrow> generate_output fl s out opos ! i =
       (if opos \<le> i \<and> i < opos + unat (inputChannels s)
        then tap_sum fl (coeff s) (fir s ! (i - opos)) (unat (headpos s)) (2 ^ k)
        else out ! i)"
proof -
  let ?ch = "unat (inputChannels s)"
  let ?clear = "\<lambda>c (out :: 'a list). out[opos + c := f_zero fl]"
  let ?out0 = "fold ?clear [0..<?ch] out"
  have step: "?clear c ys = ys[opos + c := (\<lambda>c x. f_zero fl) c (ys ! (opos + c))]"
    for c and ys :: "'a list"
    by simp
  note r = fold_offset_update_nth[of ?ch out ?clear opos, OF step room]
  have h': "uint (headpos s) < 2 ^ k"
  proof -
    have "unat (headpos s) < unat (2 ^ k :: uint)" using h N by (simp add: word_less_nat_alt)
    then have "unat (headpos s) < 2 ^ k" by (simp add: unat_pow2[OF k])
    then have "int (unat (headpos s)) < int (2 ^ k)" by (simp only: of_nat_less_iff)
    then show ?thesis by (simp only: uint_nat) simp
  qed
  have room0: "opos + ?ch \<le> length ?out0" using r(1) room by simp
  note t = tap_fold[OF k N h' room0, where t = "2 ^ k" and fl = fl]
  have go: "generate_output fl s out opos
      = fst (fold (tap_step fl s opos) [0..<2 ^ k] (?out0, headpos s))"
    by (simp add: generate_output_def N unat_pow2[OF k])
  show "length (generate_output fl s out opos) = length out"
    using t r(1) by (simp add: go)
  show "generate_output fl s out opos ! i =
       (if opos \<le> i \<and> i < opos + ?ch
        then tap_sum fl (coeff s) (fir s ! (i - opos)) (unat (headpos s)) (2 ^ k)
        else out ! i)" if "i < length out"
  proof -
    have i: "i < length ?out0" using that r(1) by simp
    have "fst (fold (tap_step fl s opos) [0..<2 ^ k] (?out0, headpos s)) ! i =
        (if opos \<le> i \<and> i < opos + ?ch
         then foldl (\<lambda>acc tap. fadd fl acc (fmul fl (coeff s ! tap)
                (fir s ! (i - opos) ! nat ((uint (headpos s) - int tap) mod 2 ^ k))))
                (?out0 ! i) [0..<2 ^ k]
         else ?out0 ! i)"
      using t i by blast
    then show ?thesis
      using r(2)[OF that] by (simp add: go tap_sum_def)
  qed
qed


lemma word_succ_below:
  fixes c d :: uint
  assumes "c < d"
  shows "unat (c + 1) = unat c + 1" and "c + 1 = d \<longleftrightarrow> unat c + 1 = unat d"
proof -
  have lt: "unat c < unat d" using assms by (simp add: word_less_nat_alt)
  have "unat d < 2 ^ 32" using unsigned_less[of d] by simp
  then have "unat c + unat (1 :: uint) < 2 ^ LENGTH(32)" using lt by simp
  then show u: "unat (c + 1) = unat c + 1"
    by (simp add: unat_add_lem[THEN iffD1])
  show "c + 1 = d \<longleftrightarrow> unat c + 1 = unat d"
  proof
    assume "c + 1 = d"
    then show "unat c + 1 = unat d" using u by simp
  next
    assume "unat c + 1 = unat d"
    then have "unat (c + 1) = unat d" using u by simp
    then show "c + 1 = d" by (rule unsigned_word_eqI)
  qed
qed

lemma convolver_ready_rows:
  assumes "convolver_ready k s" "c < unat (inputChannels s)"
  shows "length (fir s ! c) = 2 ^ k"
  using assms by (simp add: convolver_ready_def)

lemma process_frame_closed:
  assumes cr: "convolver_ready k s"
    and room: "decimationCount s + 1 = decimation s
               \<Longrightarrow> opos + unat (inputChannels s) \<le> length out"
  shows "process_frame fl s frame out opos =
     Some (if decimationCount s + 1 = decimation s
           then ((store_frame s frame)\<lparr>decimationCount := 0,
                    headpos := (headpos s + 1) AND (firLength s - 1)\<rparr>,
                 generate_output fl ((store_frame s frame)
                    \<lparr>decimationCount := decimationCount s + 1\<rparr>) out opos,
                 opos + unat (inputChannels s))
           else ((store_frame s frame)\<lparr>decimationCount := decimationCount s + 1,
                    headpos := (headpos s + 1) AND (firLength s - 1)\<rparr>, out, opos))"
proof -
  from cr have k: "0 < k" "k < 32" and N: "firLength s = 2 ^ k"
    and len: "length (fir s) = unat (inputChannels s)"
    and cf: "length (coeff s) = 2 ^ k" and h: "headpos s < firLength s"
    by (auto simp: convolver_ready_def)
  have uN: "unat (firLength s) = 2 ^ k" by (simp add: N unat_pow2[OF k(2)])
  have rows: "\<not> list_ex (\<lambda>c. length (fir s ! c) \<noteq> unat (firLength s))
                  [0..<unat (inputChannels s)]"
    using convolver_ready_rows[OF cr] by (simp add: list_ex_iff uN)
  have g1: "\<not> (length (fir s) < unat (inputChannels s)
         \<or> list_ex (\<lambda>c. length (fir s ! c) \<noteq> unat (firLength s)) [0..<unat (inputChannels s)]
         \<or> \<not> headpos s < firLength s)"
    using len rows h by simp
  have sf: "coeff (store_frame s frame) = coeff s" "firLength (store_frame s frame) = firLength s"
    "inputChannels (store_frame s frame) = inputChannels s"
    "headpos (store_frame s frame) = headpos s"
    "decimation (store_frame s frame) = decimation s"
    "decimationCount (store_frame s frame) = decimationCount s"
    by (simp_all add: store_frame_def)
  show ?thesis
    unfolding process_frame_def Let_def
    using g1 room by (auto simp: sf cf uN)
qed


lemma unat_headpos_step:
  assumes "convolver_ready k s"
  shows "unat ((headpos s + 1) AND (firLength s - 1)) = (unat (headpos s) + 1) mod 2 ^ k"
proof -
  from assms have k: "k < 32" and N: "firLength s = 2 ^ k" and h: "headpos s < firLength s"
    by (auto simp: convolver_ready_def)
  have "unat (headpos s) < unat (2 ^ k :: uint)" using h N by (simp add: word_less_nat_alt)
  then have "unat (headpos s) < 2 ^ k" by (simp add: unat_pow2[OF k])
  then show ?thesis unfolding N by (rule unat_head_step[OF k])
qed

lemma convolver_ready_process_frame:
  assumes cr: "convolver_ready k s"
    and pf: "process_frame fl s frame out opos = Some (s', out', opos')"
  shows "convolver_ready k s'"
    and "inputChannels s' = inputChannels s" and "decimation s' = decimation s"
    and "firLength s' = firLength s" and "coeff s' = coeff s"
proof -
  from cr have k: "0 < k" "k < 32" and N: "firLength s = 2 ^ k"
    and len: "length (fir s) = unat (inputChannels s)"
    and cd: "decimationCount s < decimation s"
    by (auto simp: convolver_ready_def)
  have room: "opos + unat (inputChannels s) \<le> length out"
    if "decimationCount s + 1 = decimation s"
    using pf that cr by (auto simp: process_frame_def Let_def store_frame_def split: if_splits)
  have pc: "(s', out', opos') =
          (if decimationCount s + 1 = decimation s
           then ((store_frame s frame)\<lparr>decimationCount := 0,
                    headpos := (headpos s + 1) AND (firLength s - 1)\<rparr>,
                 generate_output fl ((store_frame s frame)
                    \<lparr>decimationCount := decimationCount s + 1\<rparr>) out opos,
                 opos + unat (inputChannels s))
           else ((store_frame s frame)\<lparr>decimationCount := decimationCount s + 1,
                    headpos := (headpos s + 1) AND (firLength s - 1)\<rparr>, out, opos))"
    using process_frame_closed[OF cr room, where frame = frame and fl = fl] pf by simp
  have fir': "fir (store_frame s frame)
           = map (\<lambda>c. (fir s ! c)[unat (headpos s) := frame ! c]) [0..<unat (inputChannels s)]"
    by (rule store_frame_fir[OF len])
  have rows: "\<forall>row \<in> set (fir (store_frame s frame)). length row = 2 ^ k"
    using convolver_ready_rows[OF cr] by (auto simp: fir')
  have sf: "coeff (store_frame s frame) = coeff s" "firLength (store_frame s frame) = firLength s"
    "inputChannels (store_frame s frame) = inputChannels s"
    "decimation (store_frame s frame) = decimation s"
    by (simp_all add: store_frame_def)
  have hp: "(headpos s + 1) AND (2 ^ k - 1) < (2 ^ k :: uint)"
  proof -
    have "unat ((headpos s + 1) AND (firLength s - 1)) < 2 ^ k"
      by (simp add: unat_headpos_step[OF cr])
    then show ?thesis by (simp add: word_less_nat_alt unat_pow2[OF k(2)] N)
  qed
  have pos: "0 < decimation s"
    using cd by (simp add: word_less_nat_alt)
  have cnt: "decimationCount s + 1 < decimation s" if "decimationCount s + 1 \<noteq> decimation s"
    using that word_succ_below[OF cd] cd by (simp add: word_less_nat_alt)
  show "convolver_ready k s'"
    using pc cr rows hp pos cnt
    by (auto simp: convolver_ready_def sf fir' split: if_splits)
  show "inputChannels s' = inputChannels s" "decimation s' = decimation s"
    "firLength s' = firLength s" "coeff s' = coeff s"
    using pc by (auto simp: sf split: if_splits)
qed


lemma process_frame_props:
  fixes fl :: "('a, 'b) float_arith" and s :: "'a lowpass"
  assumes "convolver_ready k s"
    and "decimationCount s + 1 = decimation s
         \<longrightarrow> opos + unat (inputChannels s) \<le> length out"
  shows "\<exists>s' out' opos'. process_frame fl s frame out opos = Some (s', out', opos')
     \<and> fir s' = map (\<lambda>c. (fir s ! c)[unat (headpos s) := frame ! c])
                   [0..<unat (inputChannels s)]
     \<and> unat (headpos s') = (unat (headpos s) + 1) mod unat (firLength s)
     \<and> (if decimationCount s + 1 = decimation s
         then decimationCount s' = 0
            \<and> opos' = opos + unat (inputChannels s)
            \<and> length out' = length out
            \<and> (\<forall>c < unat (inputChannels s).
                  out' ! (opos + c)
                    = tap_sum fl (coeff s) (fir s' ! c) (unat (headpos s))
                        (unat (firLength s)))
            \<and> (\<forall>i < length out. i < opos \<or> opos + unat (inputChannels s) \<le> i
                  \<longrightarrow> out' ! i = out ! i)
         else decimationCount s' = decimationCount s + 1
            \<and> unat (decimationCount s') = unat (decimationCount s) + 1
            \<and> out' = out \<and> opos' = opos)
     \<and> s' = s\<lparr>fir := fir s', decimationCount := decimationCount s', headpos := headpos s'\<rparr>"
proof -
  from assms(1) have k: "0 < k" "k < 32" and N: "firLength s = 2 ^ k"
    and len: "length (fir s) = unat (inputChannels s)"
    and h: "headpos s < firLength s"
    and cd: "decimationCount s < decimation s"
    by (auto simp: convolver_ready_def)
  have uN: "unat (firLength s) = 2 ^ k" by (simp add: N unat_pow2[OF k(2)])
  let ?ch = "unat (inputChannels s)"
  let ?s1 = "(store_frame s frame)\<lparr>decimationCount := decimationCount s + 1\<rparr>"
  have room: "opos + ?ch \<le> length out" if "decimationCount s + 1 = decimation s"
    using assms(2) that by simp
  note pc = process_frame_closed[OF assms(1) room, where frame = frame and fl = fl]
  have fir': "fir (store_frame s frame)
           = map (\<lambda>c. (fir s ! c)[unat (headpos s) := frame ! c]) [0..<?ch]"
    by (rule store_frame_fir[OF len])
  have hp: "unat ((headpos s + 1) AND (firLength s - 1)) = (unat (headpos s) + 1) mod 2 ^ k"
    by (rule unat_headpos_step[OF assms(1)])
  have sf: "store_frame s frame = s\<lparr>fir := fir (store_frame s frame)\<rparr>"
    by (simp add: store_frame_def)
  have s1: "firLength ?s1 = 2 ^ k" "headpos ?s1 < firLength ?s1"
    "inputChannels ?s1 = inputChannels s" "coeff ?s1 = coeff s"
    "fir ?s1 = fir (store_frame s frame)" "headpos ?s1 = headpos s"
    using N h by (simp_all add: store_frame_def)
  let ?nh = "(headpos s + 1) AND (firLength s - 1)"
  show ?thesis
  proof (cases "decimationCount s + 1 = decimation s")
    case True
    let ?s' = "(store_frame s frame)\<lparr>decimationCount := 0, headpos := ?nh\<rparr>"
    let ?out' = "generate_output fl ?s1 out opos"
    have r: "opos + unat (inputChannels ?s1) \<le> length out"
      using room[OF True] by (simp add: s1)
    note g = generate_output_nth[OF k(2) s1(1) s1(2) r, where fl = fl]
    have pf: "process_frame fl s frame out opos = Some (?s', ?out', opos + ?ch)"
      using pc True by simp
    have f1: "fir ?s' = map (\<lambda>c. (fir s ! c)[unat (headpos s) := frame ! c]) [0..<?ch]"
      by (simp add: fir')
    have f2: "unat (headpos ?s') = (unat (headpos s) + 1) mod unat (firLength s)"
      using hp by (simp add: uN)
    have f3: "decimationCount ?s' = 0" by simp
    have f4: "length ?out' = length out" by (rule g(1))
    have f5: "\<forall>c < ?ch. ?out' ! (opos + c)
        = tap_sum fl (coeff s) (fir ?s' ! c) (unat (headpos s)) (unat (firLength s))"
    proof (intro allI impI)
      fix c assume c: "c < ?ch"
      then have "opos + c < length out" using room[OF True] by simp
      from g(2)[OF this] c show "?out' ! (opos + c)
        = tap_sum fl (coeff s) (fir ?s' ! c) (unat (headpos s)) (unat (firLength s))"
        by (simp add: s1 uN)
    qed
    have f6: "\<forall>i < length out. i < opos \<or> opos + ?ch \<le> i \<longrightarrow> ?out' ! i = out ! i"
    proof (intro allI impI)
      fix i assume i: "i < length out" "i < opos \<or> opos + ?ch \<le> i"
      from g(2)[OF i(1)] i(2) show "?out' ! i = out ! i" by (auto simp: s1)
    qed
    have f7: "?s' = s\<lparr>fir := fir ?s', decimationCount := decimationCount ?s',
                       headpos := headpos ?s'\<rparr>"
      by (simp add: store_frame_def)
    show ?thesis
      unfolding if_P[OF True]
      using pf f1 f2 f3 f4 f5 f6 f7 by blast
  next
    case False
    let ?s' = "(store_frame s frame)\<lparr>decimationCount := decimationCount s + 1, headpos := ?nh\<rparr>"
    have pf: "process_frame fl s frame out opos = Some (?s', out, opos)"
      using pc False by simp
    have f1: "fir ?s' = map (\<lambda>c. (fir s ! c)[unat (headpos s) := frame ! c]) [0..<?ch]"
      by (simp add: fir')
    have f2: "unat (headpos ?s') = (unat (headpos s) + 1) mod unat (firLength s)"
      using hp by (simp add: uN)
    have f3: "decimationCount ?s' = decimationCount s + 1" by simp
    have f4: "unat (decimationCount ?s') = unat (decimationCount s) + 1"
      using word_succ_below(1)[OF cd] by simp
    have f7: "?s' = s\<lparr>fir := fir ?s', decimationCount := decimationCount ?s',
                       headpos := headpos ?s'\<rparr>"
      by (simp add: store_frame_def)
    show ?thesis
      unfolding if_not_P[OF False]
      using pf f1 f2 f3 f4 f7 by blast
  qed
qed

text \<open>
  Claim C2. One pass of the loop on a started block, for one input frame: the frame's
  samples are stored at \<open>headpos\<close> of each channel's history; \<open>decimationCount\<close> is
  incremented; exactly when it then equals the decimation, one output frame is written
  at \<open>out\<close> and \<open>out\<close> advances by one frame, the value for channel \<open>c\<close> being the sum
  over \<open>tap\<close> in \<open>[0, tapCount)\<close> of \<open>coeff[tap] * fir[c][(headpos - tap) mod tapCount]\<close>
  on the history that already holds the new sample, the rest of the output buffer is
  untouched, and the counter is reset to 0; otherwise nothing is written; and in both
  cases \<open>headpos\<close> becomes \<open>(headpos + 1) mod tapCount\<close> and no other member changes. The
  sum is the one the code accumulates (\<open>tap_sum\<close>): it starts from \<^verbatim>\<open>0.0\<close> and adds the
  products in the order of the taps, each product and each sum being one
  single-precision operation, whatever these operations are.
\<close>

theorem process_frame_step:
  fixes fl :: "('a, 'b) float_arith" and s :: "'a lowpass"
  assumes "convolver_ready k s"
    and "decimationCount s + 1 = decimation s
         \<longrightarrow> opos + unat (inputChannels s) \<le> length out"
  shows "\<exists>s' out' opos'. process_frame fl s frame out opos = Some (s', out', opos')
     \<and> fir s' = map (\<lambda>c. (fir s ! c)[unat (headpos s) := frame ! c])
                   [0..<unat (inputChannels s)]
     \<and> unat (headpos s') = (unat (headpos s) + 1) mod unat (firLength s)
     \<and> (if decimationCount s + 1 = decimation s
         then decimationCount s' = 0
            \<and> opos' = opos + unat (inputChannels s)
            \<and> length out' = length out
            \<and> (\<forall>c < unat (inputChannels s).
                  out' ! (opos + c)
                    = tap_sum fl (coeff s) (fir s' ! c) (unat (headpos s))
                        (unat (firLength s)))
            \<and> (\<forall>i < length out. i < opos \<or> opos + unat (inputChannels s) \<le> i
                  \<longrightarrow> out' ! i = out ! i)
         else decimationCount s' = decimationCount s + 1
            \<and> unat (decimationCount s') = unat (decimationCount s) + 1
            \<and> out' = out \<and> opos' = opos)
     \<and> s' = s\<lparr>fir := fir s', decimationCount := decimationCount s', headpos := headpos s'\<rparr>"
  using assms by (rule process_frame_props)

subsection \<open>A block of frames\<close>

lemma process_frame_channels:
  "process_frame fl s frame out opos = Some (s', out', opos') \<Longrightarrow> inputChannels s' = inputChannels s"
  by (auto simp: process_frame_def Let_def store_frame_def split: if_splits)

lemma process_loop_prefix:
  "process_loop fl n s inp out opos
     = process_loop fl n s (take (n * unat (inputChannels s)) inp) out opos"
proof (induction n arbitrary: s inp out opos)
  case 0
  show ?case by simp
next
  case (Suc n)
  let ?ch = "unat (inputChannels s)"
  have t: "take ?ch (take (?ch + n * ?ch) inp) = take ?ch inp"
    by (simp add: min_def)
  have d: "drop ?ch (take (?ch + n * ?ch) inp) = take (n * ?ch) (drop ?ch inp)"
    by (simp add: drop_take)
  show ?case
  proof (cases "process_frame fl s (take ?ch inp) out opos")
    case None
    then show ?thesis by (simp add: t)
  next
    case (Some r)
    obtain s' out' opos' where r: "r = (s', out', opos')" by (cases r)
    have ch: "inputChannels s' = inputChannels s"
      using Some r by (auto dest: process_frame_channels)
    show ?thesis
      using Suc.IH[of s' "drop ?ch inp" out' opos'] Some r
      by (simp add: t d ch)
  qed
qed

lemma div_add_carry: "(a + b) div (d::nat) = a div d + (a mod d + b) div d"
  using div_add1_eq[of a b d] div_add1_eq[of "a mod d" b d] by simp

lemma process_loop_count:
  assumes "convolver_ready k s"
    and "opos + unat (inputChannels s)
           * ((unat (decimationCount s) + n) div unat (decimation s)) \<le> length out"
  shows "\<exists>s' out'. process_loop fl n s inp out opos
           = Some (s', out', opos + unat (inputChannels s)
                * ((unat (decimationCount s) + n) div unat (decimation s)))
       \<and> convolver_ready k s'
       \<and> unat (decimationCount s') = (unat (decimationCount s) + n) mod unat (decimation s)
       \<and> unat (headpos s') = (unat (headpos s) + n) mod 2 ^ k
       \<and> inputChannels s' = inputChannels s \<and> decimation s' = decimation s
       \<and> firLength s' = firLength s \<and> coeff s' = coeff s
       \<and> length out' = length out"
  using assms
proof (induction n arbitrary: s inp out opos)
  case 0
  from 0(1) have "decimationCount s < decimation s" "k < 32" "firLength s = 2 ^ k"
    "headpos s < firLength s"
    by (auto simp: convolver_ready_def)
  then have "unat (decimationCount s) < unat (decimation s)" "unat (headpos s) < 2 ^ k"
    by (simp_all add: word_less_nat_alt unat_pow2)
  with 0 show ?case by simp
next
  case (Suc n)
  let ?ch = "unat (inputChannels s)" and ?d = "unat (decimation s)"
  let ?c = "unat (decimationCount s)"
  from Suc.prems(1) have cd: "decimationCount s < decimation s" and k: "k < 32"
    and N: "firLength s = 2 ^ k"
    by (auto simp: convolver_ready_def)
  have c: "?c < ?d" using cd by (simp add: word_less_nat_alt)
  have uN: "unat (firLength s) = 2 ^ k" by (simp add: N unat_pow2[OF k])
  have emit: "decimationCount s + 1 = decimation s \<longleftrightarrow> ?c + 1 = ?d"
    by (rule word_succ_below(2)[OF cd])
  have room1: "decimationCount s + 1 = decimation s \<longrightarrow> opos + ?ch \<le> length out"
  proof
    assume "decimationCount s + 1 = decimation s"
    then have "?c + 1 = ?d" by (simp only: emit)
    then have e: "?c + Suc n = ?d + n" by linarith
    have "0 < ?d" using c by simp
    then have "1 \<le> (?c + Suc n) div ?d" unfolding e by simp
    then have "?ch \<le> ?ch * ((?c + Suc n) div ?d)" by simp
    with Suc.prems(2) show "opos + ?ch \<le> length out" by linarith
  qed
  from process_frame_props[OF Suc.prems(1) room1, where frame = "take ?ch inp" and fl = fl]
  obtain s1 out1 opos1 where
    pf: "process_frame fl s (take ?ch inp) out opos = Some (s1, out1, opos1)"
    and h1: "unat (headpos s1) = (unat (headpos s) + 1) mod unat (firLength s)"
    and br: "if decimationCount s + 1 = decimation s
         then decimationCount s1 = 0 \<and> opos1 = opos + ?ch \<and> length out1 = length out
         else unat (decimationCount s1) = ?c + 1 \<and> out1 = out \<and> opos1 = opos"
    by (auto split: if_splits)
  note keep = convolver_ready_process_frame[OF Suc.prems(1) pf]
  define tot where "tot = (?c + Suc n) div ?d"
  define q1 where "q1 = (?c + 1) div ?d"
  define r1 where "r1 = (?c + 1) mod ?d"
  define q2 where "q2 = (r1 + n) div ?d"
  have tot: "tot = q1 + q2"
    unfolding tot_def q1_def q2_def r1_def using div_add_carry[of "?c + 1" n ?d] by simp
  have rem: "(?c + Suc n) mod ?d = (r1 + n) mod ?d"
    unfolding r1_def by (simp add: mod_add_left_eq)
  have given: "opos + ?ch * tot \<le> length out"
    using Suc.prems(2) by (simp only: tot_def)
  have c1: "unat (decimationCount s1) = r1"
    and o1: "opos1 = opos + ?ch * q1"
    and l1: "length out1 = length out"
    unfolding r1_def q1_def using br c by (auto simp: emit split: if_splits)
  have room2: "opos1 + unat (inputChannels s1)
      * ((unat (decimationCount s1) + n) div unat (decimation s1)) \<le> length out1"
    unfolding keep(2,3) c1 o1 l1 q2_def[symmetric]
    using given by (simp add: tot distrib_left)
  from Suc.IH[OF keep(1) room2, of "drop ?ch inp"]
  obtain s' out' where
    pl: "process_loop fl n s1 (drop ?ch inp) out1 opos1
           = Some (s', out', opos1 + unat (inputChannels s1)
                * ((unat (decimationCount s1) + n) div unat (decimation s1)))"
    and r: "convolver_ready k s'"
      "unat (decimationCount s') = (unat (decimationCount s1) + n) mod unat (decimation s1)"
      "unat (headpos s') = (unat (headpos s1) + n) mod 2 ^ k"
      "inputChannels s' = inputChannels s1" "decimation s' = decimation s1"
      "firLength s' = firLength s1" "coeff s' = coeff s1"
      "length out' = length out1"
    by blast
  have hp: "unat (headpos s') = (unat (headpos s) + Suc n) mod 2 ^ k"
    using r(3) by (simp add: h1 uN mod_add_left_eq)
  have pos: "opos1 + unat (inputChannels s1)
                * ((unat (decimationCount s1) + n) div unat (decimation s1))
           = opos + ?ch * tot"
    unfolding keep(2,3) c1 o1 q2_def[symmetric] by (simp add: tot distrib_left)
  have res: "process_loop fl (Suc n) s inp out opos = Some (s', out', opos + ?ch * tot)"
    using pf pl by (simp add: pos)
  have cnt: "unat (decimationCount s') = (?c + Suc n) mod ?d"
    unfolding rem using r(2) by (simp only: keep(3) c1)
  show ?case
    using res r(1) cnt hp r(4-8) keep(2-5) l1 unfolding tot_def by simp
qed


lemma process_closed:
  assumes cr: "convolver_ready k s" and size: "length inBuffer < 2 ^ 32"
    and room: "unat (inputChannels s)
         * ((unat (decimationCount s) + length inBuffer div unat (inputChannels s))
              div unat (decimation s)) \<le> length outBuffer"
  shows "\<exists>s' out'.
         process fl s inBuffer outBuffer
           = Some (True, s', out', unat (inputChannels s)
               * ((unat (decimationCount s) + length inBuffer div unat (inputChannels s))
                    div unat (decimation s)))
       \<and> process_loop fl (length inBuffer div unat (inputChannels s)) s inBuffer outBuffer 0
           = Some (s', out', unat (inputChannels s)
               * ((unat (decimationCount s) + length inBuffer div unat (inputChannels s))
                    div unat (decimation s)))
       \<and> convolver_ready k s'
       \<and> unat (decimationCount s')
           = (unat (decimationCount s) + length inBuffer div unat (inputChannels s))
               mod unat (decimation s)
       \<and> unat (headpos s')
           = (unat (headpos s) + length inBuffer div unat (inputChannels s)) mod 2 ^ k
       \<and> inputChannels s' = inputChannels s \<and> decimation s' = decimation s
       \<and> firLength s' = firLength s \<and> coeff s' = coeff s
       \<and> length out' = length outBuffer"
proof -
  let ?ch = "unat (inputChannels s)"
  let ?n = "length inBuffer div ?ch"
  from cr have ch0: "inputChannels s \<noteq> 0" by (simp add: convolver_ready_def)
  have n: "unat ((of_nat (length inBuffer) :: uint) div inputChannels s) = ?n"
    by (simp add: unat_div unat_of_nat_small[OF size])
  have room': "0 + ?ch * ((unat (decimationCount s) + ?n) div unat (decimation s))
      \<le> length outBuffer"
    using room by simp
  from process_loop_count[OF cr room', where inp = inBuffer and fl = fl]
  obtain s' out' where
    pl: "process_loop fl ?n s inBuffer outBuffer 0
           = Some (s', out', 0 + ?ch * ((unat (decimationCount s) + ?n) div unat (decimation s)))"
    and r: "convolver_ready k s'"
      "unat (decimationCount s') = (unat (decimationCount s) + ?n) mod unat (decimation s)"
      "unat (headpos s') = (unat (headpos s) + ?n) mod 2 ^ k"
      "inputChannels s' = inputChannels s" "decimation s' = decimation s"
      "firLength s' = firLength s" "coeff s' = coeff s"
      "length out' = length outBuffer"
    by blast
  have pl': "process_loop fl ?n s inBuffer outBuffer 0
           = Some (s', out', ?ch * ((unat (decimationCount s) + ?n) div unat (decimation s)))"
    using pl by simp
  have p: "process fl s inBuffer outBuffer
           = Some (True, s', out', ?ch * ((unat (decimationCount s) + ?n) div unat (decimation s)))"
    using ch0 pl' by (simp add: process_def Let_def n)
  from p pl' r show ?thesis by blast
qed

text \<open>
  Claim C10. On a started block, for an input block that fits \<^verbatim>\<open>unsigned int\<close> and an
  output buffer with room for the frames produced, \<open>process\<close> returns \<^verbatim>\<open>true\<close>; it runs
  the loop \<open>floor(size / channels)\<close> times, so \<open>headpos\<close> and the decimation counter
  advance by that many frames; and its result is the one for the largest whole-frame
  prefix of the block: the trailing samples of a partial frame are not read.
\<close>

theorem process_partial_frame:
  assumes "convolver_ready k s" and "length inBuffer < 2 ^ 32"
    and "unat (inputChannels s)
         * ((unat (decimationCount s) + length inBuffer div unat (inputChannels s))
              div unat (decimation s)) \<le> length outBuffer"
  shows "\<exists>s' out' written.
         process fl s inBuffer outBuffer = Some (True, s', out', written)
       \<and> process_loop fl (length inBuffer div unat (inputChannels s)) s inBuffer outBuffer 0
           = Some (s', out', written)
       \<and> process fl s (take (length inBuffer div unat (inputChannels s) * unat (inputChannels s))
                       inBuffer) outBuffer
           = Some (True, s', out', written)
       \<and> unat (headpos s')
           = (unat (headpos s) + length inBuffer div unat (inputChannels s))
               mod unat (firLength s)
       \<and> unat (decimationCount s')
           = (unat (decimationCount s) + length inBuffer div unat (inputChannels s))
               mod unat (decimation s)
       \<and> written = unat (inputChannels s)
           * ((unat (decimationCount s) + length inBuffer div unat (inputChannels s))
                div unat (decimation s))"
proof -
  let ?ch = "unat (inputChannels s)"
  let ?n = "length inBuffer div ?ch"
  let ?whole = "take (?n * ?ch) inBuffer"
  from assms(1) have ch0: "inputChannels s \<noteq> 0" and k: "k < 32" and N: "firLength s = 2 ^ k"
    by (auto simp: convolver_ready_def)
  have chpos: "0 < ?ch" using ch0 by (simp add: unat_gt_0)
  have uN: "unat (firLength s) = 2 ^ k" by (simp add: N unat_pow2[OF k])
  have le: "?n * ?ch \<le> length inBuffer" by simp
  then have lw: "length ?whole = ?n * ?ch" by simp
  have nw: "length ?whole div ?ch = ?n" using chpos by (simp add: lw)
  have sw: "length ?whole < 2 ^ 32" unfolding lw using le assms(2) by linarith
  from process_closed[OF assms, where fl = fl]
  obtain s' out' where
    p: "process fl s inBuffer outBuffer
           = Some (True, s', out', ?ch * ((unat (decimationCount s) + ?n) div unat (decimation s)))"
    and pl: "process_loop fl ?n s inBuffer outBuffer 0
           = Some (s', out', ?ch * ((unat (decimationCount s) + ?n) div unat (decimation s)))"
    and r: "unat (decimationCount s') = (unat (decimationCount s) + ?n) mod unat (decimation s)"
      "unat (headpos s') = (unat (headpos s) + ?n) mod 2 ^ k"
    by blast
  have n': "unat ((of_nat (length ?whole) :: uint) div inputChannels s) = ?n"
    by (simp only: unat_div unat_of_nat_small[OF sw] nw)
  have "process fl s ?whole outBuffer
      = map_option (Pair True) (process_loop fl ?n s ?whole outBuffer 0)"
    using ch0 by (simp only: process_def Let_def n' if_False)
  also have "process_loop fl ?n s ?whole outBuffer 0 = process_loop fl ?n s inBuffer outBuffer 0"
    by (rule process_loop_prefix[symmetric])
  finally have pw: "process fl s ?whole outBuffer
      = Some (True, s', out', ?ch * ((unat (decimationCount s) + ?n) div unat (decimation s)))"
    using pl by simp
  from p pl pw r show ?thesis unfolding uN by blast
qed


subsection \<open>Blocks in sequence\<close>

lemma convolver_ready_started:
  assumes r: "recalculate fl (init_arrays fl s) = Some s'"
    and N: "firLength s = 2 ^ k" and k: "0 < k" "k < 32"
    and ch: "inputChannels s \<noteq> 0" and d: "decimation s \<noteq> 0"
  shows "convolver_ready k s'" and "designer_ready fl k s'"
proof -
  have in0: "inputSampleRate s \<noteq> 0"
    using r recalculate_init_arrays[of fl s] by auto
  have dr: "designer_ready fl k (init_arrays fl s)"
    by (rule designer_ready_init_arrays[OF N k in0])
  show "designer_ready fl k s'" by (rule designer_ready_recalculate[OF dr r])
  have uN: "unat (2 ^ k :: uint) = 2 ^ k" by (rule unat_pow2[OF k(2)])
  have len: "length (designed_taps fl (2 ^ k) m) = 2 ^ k" for m
    by (simp add: designed_taps_def)
  have pos: "(0 :: uint) < 2 ^ k"
    using pow2_word_neq_0[OF k(2)] by (simp add: word_greater_zero_iff)
  have dpos: "0 < decimation s" using d by (simp add: word_greater_zero_iff)
  show "convolver_ready k s'"
    using r k N ch pos dpos unfolding recalculate_closed[OF dr]
    by (auto simp: convolver_ready_def init_arrays_def Let_def uN len vector_resize_length)
qed

lemma init_Started_ready:
  assumes i: "init fl s = Some (Started s')"
    and N: "firLength s = 2 ^ k" and k: "0 < k" "k < 32" and ch: "inputChannels s \<noteq> 0"
  shows "convolver_ready k s'" and "designer_ready fl k s'"
proof -
  let ?t = "s\<lparr>outputSampleRate := derived_rate s, decimation := derived_decimation s,
             outputChannels := inputChannels s\<rparr>"
  from init_StartedD[OF i] have prod: "derived_rate s * derived_decimation s = inputSampleRate s"
    and r: "recalculate fl (init_arrays fl ?t) = Some s'"
    by simp_all
  have "inputSampleRate ?t \<noteq> 0"
    using r recalculate_init_arrays[of fl ?t] by auto
  then have d: "decimation ?t \<noteq> 0" using prod by auto
  show "convolver_ready k s'"
    by (rule convolver_ready_started(1)[OF r _ k _ d]) (simp_all add: N ch)
  show "designer_ready fl k s'"
    by (rule convolver_ready_started(2)[OF r _ k _ d]) (simp_all add: N ch)
qed

lemma feed_count:
  assumes "convolver_ready k s"
    and "rooms (unat (inputChannels s)) (unat (decimation s)) (unat (decimationCount s)) calls"
  shows "\<exists>s'. feed fl s calls
           = Some (s', (unat (decimationCount s) + frames_in (unat (inputChannels s)) calls)
                         div unat (decimation s))
       \<and> unat (decimationCount s')
           = (unat (decimationCount s) + frames_in (unat (inputChannels s)) calls)
               mod unat (decimation s)
       \<and> unat (headpos s')
           = (unat (headpos s) + frames_in (unat (inputChannels s)) calls) mod 2 ^ k"
  using assms
proof (induction calls arbitrary: s)
  case Nil
  from Nil(1) have "decimationCount s < decimation s" "k < 32" "firLength s = 2 ^ k"
    "headpos s < firLength s"
    by (auto simp: convolver_ready_def)
  then have "unat (decimationCount s) < unat (decimation s)" "unat (headpos s) < 2 ^ k"
    by (simp_all add: word_less_nat_alt unat_pow2)
  then show ?case by (simp add: frames_in_def)
next
  case (Cons call calls)
  obtain inb outb where call: "call = (inb, outb)" by (cases call)
  let ?ch = "unat (inputChannels s)" and ?d = "unat (decimation s)"
  let ?c = "unat (decimationCount s)"
  let ?n = "length inb div ?ch"
  from Cons.prems(1) have ch0: "inputChannels s \<noteq> 0" by (simp add: convolver_ready_def)
  then have chpos: "0 < ?ch" by (simp add: unat_gt_0)
  from Cons.prems(2) have size: "length inb < 2 ^ 32"
    and room: "?ch * ((?c + ?n) div ?d) \<le> length outb"
    and rest: "rooms ?ch ?d ((?c + ?n) mod ?d) calls"
    by (simp_all add: call)
  from process_closed[OF Cons.prems(1) size room, where fl = fl]
  obtain s1 out1 where
    p: "process fl s inb outb = Some (True, s1, out1, ?ch * ((?c + ?n) div ?d))"
    and r: "convolver_ready k s1"
      "unat (decimationCount s1) = (?c + ?n) mod ?d"
      "unat (headpos s1) = (unat (headpos s) + ?n) mod 2 ^ k"
      "inputChannels s1 = inputChannels s" "decimation s1 = decimation s"
    by blast
  have rest1: "rooms (unat (inputChannels s1)) (unat (decimation s1))
      (unat (decimationCount s1)) calls"
    using rest by (simp only: r)
  define m where "m = frames_in ?ch calls"
  from Cons.IH[OF r(1) rest1]
  obtain s' where
    f: "feed fl s1 calls = Some (s', ((?c + ?n) mod ?d + m) div ?d)"
    and r': "unat (decimationCount s') = ((?c + ?n) mod ?d + m) mod ?d"
      "unat (headpos s') = ((unat (headpos s) + ?n) mod 2 ^ k + m) mod 2 ^ k"
    unfolding r m_def by blast
  have tot: "frames_in ?ch (call # calls) = ?n + m"
    by (simp add: frames_in_def call m_def)
  have written: "?ch * ((?c + ?n) div ?d) div ?ch = (?c + ?n) div ?d"
    using chpos by simp
  have "feed fl s (call # calls) = Some (s', (?c + ?n) div ?d + ((?c + ?n) mod ?d + m) div ?d)"
    using p f by (simp add: call written)
  also have "(?c + ?n) div ?d + ((?c + ?n) mod ?d + m) div ?d = (?c + (?n + m)) div ?d"
    using div_add_carry[of "?c + ?n" m ?d] by (simp add: add.assoc)
  finally have 1: "feed fl s (call # calls) = Some (s', (?c + (?n + m)) div ?d)" .
  have 2: "unat (decimationCount s') = (?c + (?n + m)) mod ?d"
    using r'(1) by (simp add: mod_add_left_eq add.assoc)
  have 3: "unat (headpos s') = (unat (headpos s) + (?n + m)) mod 2 ^ k"
    using r'(2) by (simp add: mod_add_left_eq add.assoc)
  from 1 2 3 show ?case unfolding tot by blast
qed

text \<open>
  Claim C3. A started block whose decimation counter is 0 is fed any list of blocks,
  one \<open>process\<close> call each, every block fitting \<^verbatim>\<open>unsigned int\<close> and every output buffer
  holding what its call produces. Then all calls return, and together they write
  \<open>floor(F / decimation)\<close> frames, where \<open>F\<close> is the number of input frames of all blocks;
  the counter ends at \<open>F mod decimation\<close> and \<open>headpos\<close> has advanced by \<open>F\<close>. So if
  \<open>F = K * decimation\<close>, exactly \<open>K\<close> frames are written and the counter is 0 again,
  however the frames are split into blocks.
\<close>

theorem decimation_count:
  assumes "convolver_ready k s" and "decimationCount s = 0"
    and "rooms (unat (inputChannels s)) (unat (decimation s)) 0 calls"
  shows "\<exists>s'. feed fl s calls
           = Some (s', frames_in (unat (inputChannels s)) calls div unat (decimation s))
       \<and> unat (decimationCount s')
           = frames_in (unat (inputChannels s)) calls mod unat (decimation s)
       \<and> unat (headpos s')
           = (unat (headpos s) + frames_in (unat (inputChannels s)) calls)
               mod unat (firLength s)
       \<and> (\<forall>K. frames_in (unat (inputChannels s)) calls = K * unat (decimation s)
              \<longrightarrow> feed fl s calls = Some (s', K) \<and> decimationCount s' = 0)"
proof -
  from assms(1) have k: "k < 32" and N: "firLength s = 2 ^ k"
    and cd: "decimationCount s < decimation s"
    by (auto simp: convolver_ready_def)
  have uN: "unat (firLength s) = 2 ^ k" by (simp add: N unat_pow2[OF k])
  have dpos: "0 < unat (decimation s)" using cd by (simp add: word_less_nat_alt)
  have rooms0: "rooms (unat (inputChannels s)) (unat (decimation s))
      (unat (decimationCount s)) calls"
    using assms(3) by (simp add: assms(2))
  from feed_count[OF assms(1) rooms0, where fl = fl]
  obtain s' where
    f: "feed fl s calls
           = Some (s', frames_in (unat (inputChannels s)) calls div unat (decimation s))"
    and c: "unat (decimationCount s')
           = frames_in (unat (inputChannels s)) calls mod unat (decimation s)"
    and h: "unat (headpos s')
           = (unat (headpos s) + frames_in (unat (inputChannels s)) calls) mod 2 ^ k"
    by (auto simp: assms(2))
  have "feed fl s calls = Some (s', K) \<and> decimationCount s' = 0"
    if "frames_in (unat (inputChannels s)) calls = K * unat (decimation s)" for K
  proof -
    have "unat (decimationCount s') = 0" using c that by simp
    then have "decimationCount s' = 0" by (simp add: unat_0_iff)
    then show ?thesis using f that dpos by simp
  qed
  with f c h show ?thesis unfolding uN by blast
qed

subsection \<open>A started example\<close>


lemma started_48k:
  "\<exists>S. init fl config_48k = Some (Started S) \<and> convolver_ready 6 S \<and> designer_ready fl 6 S
     \<and> inputChannels S = 2 \<and> decimation S = 2 \<and> decimationCount S = 0 \<and> headpos S = 0
     \<and> firLength S = 64"
proof -
  have c: "inputSampleRate config_48k = 48000" "firLength config_48k = 2 ^ 6"
    "inputChannels config_48k = 2" "reqOutputRate config_48k = 24000"
    by (simp_all add: config_48k_def LowPass_def host_48k_def FIR_LENGTH_def)
  have "\<exists>S. init fl config_48k = Some (Started S)"
    by (simp add: init_Started_iff c derived_rate_def derived_decimation_def)
  then obtain S where S: "init fl config_48k = Some (Started S)" by blast
  have r: "convolver_ready 6 S" "designer_ready fl 6 S"
    by (rule init_Started_ready[OF S c(2)]; simp add: c)+
  from init_Started_fields[OF S] have
    "inputChannels S = 2" "decimation S = 2" "decimationCount S = 0" "headpos S = 0"
    "firLength S = 64"
    by (simp_all add: c derived_decimation_def)
  with S r show ?thesis by blast
qed

theorem process_frame_step_witness:
  "\<exists>S. init exact_arith (config_48k :: real lowpass) = Some (Started S) \<and> convolver_ready 6 S
     \<and> (\<exists>s'. process_frame exact_arith S [1, 2] [0, 0] 0 = Some (s', [0, 0], 0)
            \<and> decimationCount s' = 1 \<and> unat (headpos s') = 1)
     \<and> convolver_ready 6 (S\<lparr>decimationCount := 1\<rparr>)
     \<and> (\<exists>s' out'. process_frame exact_arith (S\<lparr>decimationCount := 1\<rparr>) [1, 2] [0, 0] 0
                       = Some (s', out', 2)
            \<and> decimationCount s' = 0 \<and> unat (headpos s') = 1)"
proof -
  from started_48k[of exact_arith] obtain S where S: "init exact_arith (config_48k :: real lowpass) = Some (Started S)"
    and r: "convolver_ready 6 S"
    and f: "inputChannels S = 2" "decimation S = 2" "decimationCount S = 0" "headpos S = 0"
      "firLength S = 64"
    by blast
  let ?S1 = "S\<lparr>decimationCount := 1\<rparr>"
  have r1: "convolver_ready 6 ?S1"
    using r f by (simp add: convolver_ready_def)
  have room: "decimationCount S + 1 = decimation S \<longrightarrow> 0 + unat (inputChannels S) \<le> length [0, 0 :: real]"
    by (simp add: f)
  have room1: "decimationCount ?S1 + 1 = decimation ?S1
      \<longrightarrow> 0 + unat (inputChannels ?S1) \<le> length [0, 0 :: real]"
    by (simp add: f)
  from process_frame_step[OF r room, where frame = "[1, 2]" and fl = exact_arith]
  have a: "\<exists>s'. process_frame exact_arith S [1, 2] [0, 0] 0 = Some (s', [0, 0], 0)
            \<and> decimationCount s' = 1 \<and> unat (headpos s') = 1"
    by (auto simp: f)
  from process_frame_step[OF r1 room1, where frame = "[1, 2]" and fl = exact_arith]
  have b: "\<exists>s' out'. process_frame exact_arith ?S1 [1, 2] [0, 0] 0 = Some (s', out', 2)
            \<and> decimationCount s' = 0 \<and> unat (headpos s') = 1"
    by (auto simp: f)
  from S r r1 a b show ?thesis by blast
qed

theorem process_partial_frame_witness:
  "\<exists>S. init exact_arith (config_48k :: real lowpass) = Some (Started S) \<and> convolver_ready 6 S
     \<and> (\<exists>s' out'. process exact_arith S [1, 2, 3, 4, 5] [0, 0] = Some (True, s', out', 2)
            \<and> process exact_arith S [1, 2, 3, 4] [0, 0] = Some (True, s', out', 2)
            \<and> unat (headpos s') = 2 \<and> decimationCount s' = 0)"
proof -
  from started_48k[of exact_arith] obtain S where S: "init exact_arith (config_48k :: real lowpass) = Some (Started S)"
    and r: "convolver_ready 6 S"
    and f: "inputChannels S = 2" "decimation S = 2" "decimationCount S = 0" "headpos S = 0"
      "firLength S = 64"
    by blast
  have size: "length [1, 2, 3, 4, 5 :: real] < 2 ^ 32" by simp
  have room: "unat (inputChannels S)
         * ((unat (decimationCount S) + length [1, 2, 3, 4, 5 :: real] div unat (inputChannels S))
              div unat (decimation S)) \<le> length [0, 0 :: real]"
    by (simp add: f)
  from process_partial_frame[OF r size room, where fl = exact_arith]
  have "\<exists>s' out'. process exact_arith S [1, 2, 3, 4, 5] [0, 0] = Some (True, s', out', 2)
            \<and> process exact_arith S [1, 2, 3, 4] [0, 0] = Some (True, s', out', 2)
            \<and> unat (headpos s') = 2 \<and> unat (decimationCount s') = 0"
    by (auto simp: f)
  then have "\<exists>s' out'. process exact_arith S [1, 2, 3, 4, 5] [0, 0] = Some (True, s', out', 2)
            \<and> process exact_arith S [1, 2, 3, 4] [0, 0] = Some (True, s', out', 2)
            \<and> unat (headpos s') = 2 \<and> decimationCount s' = 0"
    by (simp add: unat_0_iff)
  with S r show ?thesis by blast
qed

theorem decimation_count_witness:
  "\<exists>S. init exact_arith (config_48k :: real lowpass) = Some (Started S) \<and> convolver_ready 6 S \<and> decimationCount S = 0
     \<and> rooms 2 2 0 ([([1, 2, 3, 4, 5, 6], [0, 0]), ([7, 8], [0, 0])]
                       :: (real list \<times> real list) list)
     \<and> (\<exists>s'. feed exact_arith S [([1, 2, 3, 4, 5, 6], [0, 0]), ([7, 8], [0, 0])] = Some (s', 2))
     \<and> rooms 2 2 0 ([([1, 2, 3, 4, 5, 6, 7, 8], [0, 0, 0, 0])]
                       :: (real list \<times> real list) list)
     \<and> (\<exists>s'. feed exact_arith S [([1, 2, 3, 4, 5, 6, 7, 8], [0, 0, 0, 0])] = Some (s', 2))"
proof -
  from started_48k[of exact_arith] obtain S where S: "init exact_arith (config_48k :: real lowpass) = Some (Started S)"
    and r: "convolver_ready 6 S"
    and f: "inputChannels S = 2" "decimation S = 2" "decimationCount S = 0" "headpos S = 0"
      "firLength S = 64"
    by blast
  let ?a = "[([1, 2, 3, 4, 5, 6], [0, 0]), ([7, 8], [0, 0])] :: (real list \<times> real list) list"
  let ?b = "[([1, 2, 3, 4, 5, 6, 7, 8], [0, 0, 0, 0])] :: (real list \<times> real list) list"
  have ra: "rooms 2 2 0 ?a" and rb: "rooms 2 2 0 ?b" by simp_all
  have fa: "frames_in 2 ?a = 2 * 2" and fb: "frames_in 2 ?b = 2 * 2"
    by (simp_all add: frames_in_def)
  have ra': "rooms (unat (inputChannels S)) (unat (decimation S)) 0 ?a"
    and rb': "rooms (unat (inputChannels S)) (unat (decimation S)) 0 ?b"
    using ra rb by (simp_all add: f)
  from decimation_count[OF r f(3) ra', where fl = exact_arith] fa
  have a: "\<exists>s'. feed exact_arith S ?a = Some (s', 2)" by (auto simp: f)
  from decimation_count[OF r f(3) rb', where fl = exact_arith] fb
  have b: "\<exists>s'. feed exact_arith S ?b = Some (s', 2)" by (auto simp: f)
  from S r f(3) ra rb a b show ?thesis by blast
qed

end
